theory Spec2Isabelle
  imports Complex_Main "HOL-Library.Word"
begin

unbundle bit_operations_syntax

section \<open>IEEE 754 binary32, the C type \<open>float\<close>\<close>

text \<open>
  A \<open>float\<close> is one sign bit, eight exponent bits and twenty-three fraction bits.
  Every combination of the three fields is a value of the type, so the record below has
  exactly the \<open>2 ^ 32\<close> values of the C type, NaN payloads included.
\<close>

record float32 =
  sign :: bool
  expo :: "8 word"
  fraction :: "23 word"

text \<open>
  Modelled from the spec: the width of the C type \<open>long\<close>, which \<open>main.c\<close> leaves to the
  platform. The spec fixes the integer view to 32 bits, two's complement (the ILP32 and
  LLP64 data models); the arithmetic on it wraps modulo \<open>2 ^ 32\<close>. The run of the
  function with a 64-bit \<open>long\<close>, and the subtraction that does not wrap, are modelled
  separately below.
\<close>

type_synonym long32 = "32 word"

text \<open>
  The object representation of a \<open>float\<close>: what \<open>*(long *) &y\<close> reads, and what
  \<open>*(float *) &i\<close> interprets.
\<close>

definition float_bits :: "float32 \<Rightarrow> long32" where
  "float_bits f =
     push_bit 31 (of_bool (sign f)) OR push_bit 23 (ucast (expo f)) OR ucast (fraction f)"

definition bits_float :: "long32 \<Rightarrow> float32" where
  "bits_float w = \<lparr>sign = bit w 31, expo = ucast (drop_bit 23 w), fraction = ucast w\<rparr>"

definition is_nan :: "float32 \<Rightarrow> bool" where
  "is_nan f \<longleftrightarrow> expo f = 255 \<and> fraction f \<noteq> 0"

definition is_inf :: "float32 \<Rightarrow> bool" where
  "is_inf f \<longleftrightarrow> expo f = 255 \<and> fraction f = 0"

definition is_zero :: "float32 \<Rightarrow> bool" where
  "is_zero f \<longleftrightarrow> expo f = 0 \<and> fraction f = 0"

definition is_finite :: "float32 \<Rightarrow> bool" where
  "is_finite f \<longleftrightarrow> expo f \<noteq> 255"

definition is_normal :: "float32 \<Rightarrow> bool" where
  "is_normal f \<longleftrightarrow> expo f \<noteq> 0 \<and> expo f \<noteq> 255"

text \<open>
  A finite float is \<open>\<plusminus> mant * 2 ^ expn\<close>: the hidden bit is set unless the exponent
  field is zero, and the subnormals share the exponent of the smallest normals.
\<close>

definition mant :: "float32 \<Rightarrow> nat" where
  "mant f = (if expo f = 0 then unat (fraction f) else 2 ^ 23 + unat (fraction f))"

definition expn :: "float32 \<Rightarrow> int" where
  "expn f = (if expo f = 0 then - 149 else int (unat (expo f)) - 150)"

definition valof :: "float32 \<Rightarrow> real" where
  "valof f = (if sign f then - 1 else 1) * real (mant f) * 2 powi expn f"

definition mk_float :: "bool \<Rightarrow> nat \<Rightarrow> nat \<Rightarrow> float32" where
  "mk_float s e m = \<lparr>sign = s, expo = of_nat e, fraction = of_nat m\<rparr>"

definition signed_inf :: "bool \<Rightarrow> float32" where
  "signed_inf s = mk_float s 255 0"

definition signed_zero :: "bool \<Rightarrow> float32" where
  "signed_zero s = mk_float s 0 0"

text \<open>
  IEEE 754 leaves the payload of a NaN that an operation produces to the platform; the
  model returns the positive quiet NaN with an empty payload, \<open>0x7FC00000\<close>. What is
  claimed of a result that is a NaN is only that it is one.
\<close>

definition default_nan :: float32 where
  "default_nan = mk_float False 255 (2 ^ 22)"

subsection \<open>Rounding to nearest, ties to even\<close>

fun bit_length :: "nat \<Rightarrow> nat" where
  "bit_length n = (if n = 0 then 0 else Suc (bit_length (n div 2)))"

declare bit_length.simps [simp del]

text \<open>
  \<open>round_pack s m e\<close> is the float nearest to \<open>\<plusminus> m * 2 ^ e\<close>. The result keeps 24
  significant bits, fewer below \<open>2 ^ - 126\<close> where the exponent stops at \<open>- 149\<close>; a
  remainder of exactly one half rounds to the even neighbour; a result beyond the largest
  finite float is an infinity.
\<close>

definition round_up :: "nat \<Rightarrow> nat \<Rightarrow> nat \<Rightarrow> nat" where
  "round_up q r h = (if r > h \<or> (r = h \<and> odd q) then q + 1 else q)"

definition round_shift :: "nat \<Rightarrow> nat \<Rightarrow> nat" where
  "round_shift m d =
     (if d = 0 then m else round_up (m div 2 ^ d) (m mod 2 ^ d) (2 ^ (d - 1)))"

definition pack :: "bool \<Rightarrow> nat \<Rightarrow> int \<Rightarrow> float32" where
  "pack s q e =
     (if q < 2 ^ 23 then mk_float s 0 q
      else if q = 2 ^ 24 then
        (if e + 151 \<ge> 255 then signed_inf s else mk_float s (nat (e + 151)) 0)
      else if e + 150 \<ge> 255 then signed_inf s
      else mk_float s (nat (e + 150)) (q - 2 ^ 23))"

definition round_at :: "bool \<Rightarrow> nat \<Rightarrow> int \<Rightarrow> int \<Rightarrow> float32" where
  "round_at s m e e' =
     (if e' \<le> e then pack s (m * 2 ^ nat (e - e')) e'
      else pack s (round_shift m (nat (e' - e))) e')"

definition round_pack :: "bool \<Rightarrow> nat \<Rightarrow> int \<Rightarrow> float32" where
  "round_pack s m e =
     (if m = 0 then signed_zero s
      else round_at s m e (max (e + int (bit_length m) - 24) (- 149)))"

subsection \<open>Arithmetic\<close>

definition fneg :: "float32 \<Rightarrow> float32" where
  "fneg a = a\<lparr>sign := \<not> sign a\<rparr>"

definition fmul :: "float32 \<Rightarrow> float32 \<Rightarrow> float32" where
  "fmul a b =
     (if is_nan a \<or> is_nan b then default_nan
      else if is_inf a \<or> is_inf b then
        (if is_zero a \<or> is_zero b then default_nan else signed_inf (sign a \<noteq> sign b))
      else round_pack (sign a \<noteq> sign b) (mant a * mant b) (expn a + expn b))"

text \<open>
  A sum is formed exactly, on the smaller of the two exponents, and rounded once. A sum
  of zero is \<open>+0\<close> unless both operands are negative.
\<close>

definition signed_mant :: "float32 \<Rightarrow> int \<Rightarrow> int" where
  "signed_mant a e = (if sign a then - 1 else 1) * (int (mant a) * 2 ^ nat (expn a - e))"

definition sum_pack :: "bool \<Rightarrow> int \<Rightarrow> int \<Rightarrow> float32" where
  "sum_pack s v e = (if v = 0 then signed_zero s else round_pack (v < 0) (nat \<bar>v\<bar>) e)"

definition add_finite :: "float32 \<Rightarrow> float32 \<Rightarrow> int \<Rightarrow> float32" where
  "add_finite a b e = sum_pack (sign a \<and> sign b) (signed_mant a e + signed_mant b e) e"

definition fadd :: "float32 \<Rightarrow> float32 \<Rightarrow> float32" where
  "fadd a b =
     (if is_nan a \<or> is_nan b then default_nan
      else if is_inf a then (if is_inf b \<and> sign a \<noteq> sign b then default_nan else a)
      else if is_inf b then b
      else add_finite a b (min (expn a) (expn b)))"

definition fsub :: "float32 \<Rightarrow> float32 \<Rightarrow> float32" where
  "fsub a b = fadd a (fneg b)"

text \<open>
  Division rounds the exact quotient: the dividend is scaled so that the integer quotient
  has at least 27 bits, and a last bit records whether anything was left over.
\<close>

definition quot_pack :: "bool \<Rightarrow> int \<Rightarrow> nat \<Rightarrow> nat \<Rightarrow> float32" where
  "quot_pack s e q r = round_pack s (2 * q + (if r = 0 then 0 else 1)) (e - 1)"

definition fdiv :: "float32 \<Rightarrow> float32 \<Rightarrow> float32" where
  "fdiv a b =
     (if is_nan a \<or> is_nan b then default_nan
      else if is_inf a then (if is_inf b then default_nan else signed_inf (sign a \<noteq> sign b))
      else if is_inf b then signed_zero (sign a \<noteq> sign b)
      else if is_zero b then (if is_zero a then default_nan else signed_inf (sign a \<noteq> sign b))
      else quot_pack (sign a \<noteq> sign b) (expn a - expn b - 50)
             (mant a * 2 ^ 50 div mant b) (mant a * 2 ^ 50 mod mant b))"

section \<open>The function \<open>inv_sqrt\<close>\<close>

definition float_half :: float32 where
  "float_half = mk_float False 126 0"

definition float_one :: float32 where
  "float_one = mk_float False 127 0"

definition threehalfs :: float32 where
  "threehalfs = mk_float False 127 (2 ^ 22)"

definition magic :: long32 where
  "magic = 0x5f3759df"

text \<open>
  The locals of \<open>inv_sqrt\<close>. C gives them no initial value, so the body starts from
  whatever frame it is handed and every statement is an update of that frame. Each
  \<open>float\<close> operation is evaluated in binary32 and rounded on its own, and \<open>x2*y*y\<close>
  associates to the left; \<open>>>\<close> on a negative \<open>long\<close> is the arithmetic shift.
\<close>

record frame =
  loc_i :: long32
  loc_x2 :: float32
  loc_y :: float32

definition inv_sqrt_body :: "float32 \<Rightarrow> frame \<Rightarrow> frame" where
  "inv_sqrt_body n fr0 =
     (let fr1 = fr0\<lparr>loc_x2 := fmul n float_half\<rparr>;
          fr2 = fr1\<lparr>loc_y := n\<rparr>;
          fr3 = fr2\<lparr>loc_i := float_bits (loc_y fr2)\<rparr>;
          fr4 = fr3\<lparr>loc_i := magic - signed_drop_bit 1 (loc_i fr3)\<rparr>;
          fr5 = fr4\<lparr>loc_y := bits_float (loc_i fr4)\<rparr>;
          fr6 = fr5\<lparr>loc_y :=
                  fmul (loc_y fr5)
                    (fsub threehalfs (fmul (fmul (loc_x2 fr5) (loc_y fr5)) (loc_y fr5)))\<rparr>
      in fr6)"

definition frame0 :: frame where
  "frame0 = \<lparr>loc_i = 0, loc_x2 = signed_zero False, loc_y = signed_zero False\<rparr>"

definition inv_sqrt :: "float32 \<Rightarrow> float32" where
  "inv_sqrt n = loc_y (inv_sqrt_body n frame0)"


section \<open>The wrapper \<open>main\<close>\<close>
















section \<open>The range and the width of \<open>long\<close>\<close>

text \<open>
  \<open>inv_sqrt_body\<close> settles two things by computing in \<open>long32\<close> that \<open>main.c\<close>
  leaves to the language and to the platform. Both are modelled here, so that what is said
  about them is said about the code.

  The first is the range. \<open>0x5f3759df - (i >> 1)\<close> is a signed subtraction, and C defines
  its result only when the exact difference is a value of the type. \<open>long_sub\<close> is that
  partial operation, and \<open>inv_sqrt_body_checked\<close> is the body of \<open>inv_sqrt\<close>, statement by
  statement, with \<open>long_sub\<close> where \<open>inv_sqrt_body\<close> wraps around.
\<close>

datatype c_error = Signed_overflow

definition long_sub :: "long32 \<Rightarrow> long32 \<Rightarrow> c_error + long32" where
  "long_sub a b =
     (if - (2 ^ 31) \<le> sint a - sint b \<and> sint a - sint b < 2 ^ 31 then Inr (a - b)
      else Inl Signed_overflow)"

definition finish_checked :: "frame \<Rightarrow> c_error + long32 \<Rightarrow> c_error + frame" where
  "finish_checked fr3 d =
     (case d of
        Inl e \<Rightarrow> Inl e
      | Inr v \<Rightarrow>
          (let fr4 = fr3\<lparr>loc_i := v\<rparr>;
               fr5 = fr4\<lparr>loc_y := bits_float (loc_i fr4)\<rparr>;
               fr6 = fr5\<lparr>loc_y :=
                       fmul (loc_y fr5)
                         (fsub threehalfs (fmul (fmul (loc_x2 fr5) (loc_y fr5)) (loc_y fr5)))\<rparr>
           in Inr fr6))"

definition inv_sqrt_body_checked :: "float32 \<Rightarrow> frame \<Rightarrow> c_error + frame" where
  "inv_sqrt_body_checked n fr0 =
     (let fr1 = fr0\<lparr>loc_x2 := fmul n float_half\<rparr>;
          fr2 = fr1\<lparr>loc_y := n\<rparr>;
          fr3 = fr2\<lparr>loc_i := float_bits (loc_y fr2)\<rparr>
      in finish_checked fr3 (long_sub magic (signed_drop_bit 1 (loc_i fr3))))"

definition inv_sqrt_checked :: "float32 \<Rightarrow> c_error + float32" where
  "inv_sqrt_checked n = map_sum id loc_y (inv_sqrt_body_checked n frame0)"

text \<open>
  The second is the width. \<open>main.c\<close> declares \<open>long i\<close>, and where \<open>long\<close> has 64 bits (the
  LP64 data model of 64-bit Linux and macOS) the read \<open>*(long *) &y\<close> takes eight bytes:
  the four of \<open>y\<close> and the four stored after them, which belong to whatever the compiler
  has placed there. On a little-endian machine the bytes of \<open>y\<close> are the lower half of
  the integer read, and \<open>*(float *) &i\<close> takes the lower half of \<open>i\<close>. The frame of this
  run carries the four bytes after \<open>y\<close> as a field of its own, which no statement of the
  function writes.
\<close>

type_synonym long64 = "64 word"

definition magic64 :: long64 where
  "magic64 = 0x5f3759df"

record frame64 =
  loc64_i :: long64
  loc64_x2 :: float32
  loc64_y :: float32
  above_y :: "32 word"

definition long_at_y :: "frame64 \<Rightarrow> long64" where
  "long_at_y fr = push_bit 32 (ucast (above_y fr)) OR ucast (float_bits (loc64_y fr))"

definition float_at_i :: "frame64 \<Rightarrow> float32" where
  "float_at_i fr = bits_float (ucast (loc64_i fr))"

definition inv_sqrt_body_lp64 :: "float32 \<Rightarrow> frame64 \<Rightarrow> frame64" where
  "inv_sqrt_body_lp64 n fr0 =
     (let fr1 = fr0\<lparr>loc64_x2 := fmul n float_half\<rparr>;
          fr2 = fr1\<lparr>loc64_y := n\<rparr>;
          fr3 = fr2\<lparr>loc64_i := long_at_y fr2\<rparr>;
          fr4 = fr3\<lparr>loc64_i := magic64 - signed_drop_bit 1 (loc64_i fr3)\<rparr>;
          fr5 = fr4\<lparr>loc64_y := float_at_i fr4\<rparr>;
          fr6 = fr5\<lparr>loc64_y :=
                  fmul (loc64_y fr5)
                    (fsub threehalfs (fmul (fmul (loc64_x2 fr5) (loc64_y fr5)) (loc64_y fr5)))\<rparr>
      in fr6)"

text \<open>A starting frame with the word \<open>a\<close> after \<open>y\<close>, and the run of the function from it.\<close>

definition frame64_0 :: "32 word \<Rightarrow> frame64" where
  "frame64_0 a =
     \<lparr>loc64_i = 0, loc64_x2 = signed_zero False, loc64_y = signed_zero False, above_y = a\<rparr>"

definition inv_sqrt_lp64 :: "32 word \<Rightarrow> float32 \<Rightarrow> float32" where
  "inv_sqrt_lp64 a n = loc64_y (inv_sqrt_body_lp64 n (frame64_0 a))"

section \<open>Notions for the analysis\<close>

text \<open>
  The magnitude of a finite float, the initial estimate \<open>y0\<close> that the integer
  subtraction produces, and the intermediate results of the Newton step:
  \<open>a = x2 * y0\<close>, \<open>u = a * y0\<close> and \<open>c = threehalfs - u\<close>.
\<close>

definition mag :: "float32 \<Rightarrow> real" where
  "mag f = real (mant f) * 2 powi expn f"

definition pos_normal :: "float32 \<Rightarrow> bool" where
  "pos_normal n \<longleftrightarrow> \<not> sign n \<and> is_normal n"

definition estimate :: "float32 \<Rightarrow> float32" where
  "estimate n = bits_float (magic - signed_drop_bit 1 (float_bits n))"

definition step_a :: "float32 \<Rightarrow> float32" where
  "step_a n = fmul (fmul n float_half) (estimate n)"

definition step_u :: "float32 \<Rightarrow> float32" where
  "step_u n = fmul (step_a n) (estimate n)"

definition step_c :: "float32 \<Rightarrow> float32" where
  "step_c n = fsub threehalfs (step_u n)"

text \<open>
  The fields of the estimate, by the parity of the exponent field \<open>E\<close> of the input and
  by whether the halved fraction \<open>F div 2\<close> borrows from the exponent: the estimate is
  \<open>est_mant E F * 2 ^ (est_expo E F - 150)\<close>, and the input times the square of the
  estimate is \<open>(2 ^ 23 + F) * (est_mant E F)\<^sup>2 / 2 ^ est_scale E F\<close>.
\<close>

definition est_mant :: "nat \<Rightarrow> nat \<Rightarrow> nat" where
  "est_mant E F =
     (if even E then (if F div 2 \<le> 3627487 then 12016095 else 20404703) else 16210399)
       - F div 2"

definition est_expo :: "nat \<Rightarrow> nat \<Rightarrow> nat" where
  "est_expo E F = (if even E \<and> F div 2 \<le> 3627487 then 190 else 189) - E div 2"

definition est_scale :: "nat \<Rightarrow> nat \<Rightarrow> nat" where
  "est_scale E F = (if even E then (if F div 2 \<le> 3627487 then 70 else 72) else 71)"


text \<open>
  The significand that rounding leaves of \<open>m\<close>, 24 bits wide, and a float with its
  exponent field moved by \<open>d\<close>: the product of two normal floats keeps its significand
  when the factors are scaled by powers of two.
\<close>

definition sig24 :: "nat \<Rightarrow> nat" where
  "sig24 m =
     (if bit_length m \<le> 24 then m * 2 ^ (24 - bit_length m)
      else round_shift m (bit_length m - 24))"

definition scale_expo :: "float32 \<Rightarrow> int \<Rightarrow> float32" where
  "scale_expo f d = mk_float (sign f) (nat (int (unat (expo f)) + d)) (unat (fraction f))"

text \<open>The floats \<open>2.0\<close> and \<open>4.0\<close>.\<close>

definition float_two :: float32 where
  "float_two = mk_float False 128 0"

definition float_four :: float32 where
  "float_four = mk_float False 129 0"

section \<open>Evaluation rules\<close>

text \<open>
  \<open>bit_length\<close> on a numeral follows the digits of the numeral, which is how the
  simplifier evaluates it on concrete mantissas.
\<close>

lemma bit_length_0: "bit_length 0 = 0"
  by (simp add: bit_length.simps)

lemma bit_length_Suc_0: "bit_length (Suc 0) = Suc 0"
  by (simp add: bit_length.simps)

lemma bit_length_Bit0: "bit_length (numeral (Num.Bit0 k)) = Suc (bit_length (numeral k))"
  by (subst bit_length.simps) simp

lemma bit_length_Bit1: "bit_length (numeral (Num.Bit1 k)) = Suc (bit_length (numeral k))"
  by (subst bit_length.simps) simp

lemmas bit_length_eval = bit_length_0 bit_length_Suc_0 bit_length_Bit0 bit_length_Bit1

lemmas fp_eval = fmul_def fsub_def fadd_def fneg_def fdiv_def signed_mant_def
  add_finite_def sum_pack_def quot_pack_def
  is_nan_def is_inf_def is_zero_def mant_def expn_def
  float_half_def float_one_def float_two_def float_four_def threehalfs_def signed_zero_def signed_inf_def default_nan_def
  round_pack_def round_at_def round_up_def bit_length_eval pack_def round_shift_def
  mk_float_def

lemma inv_sqrt_body_y:
  "loc_y (inv_sqrt_body n fr) =
     (let y0 = bits_float (magic - signed_drop_bit 1 (float_bits n))
      in fmul y0 (fsub threehalfs (fmul (fmul (fmul n float_half) y0) y0)))"
  by (simp add: inv_sqrt_body_def Let_def)

lemma fmul_commute: "fmul a b = fmul b a"
proof -
  have "(sign a \<noteq> sign b) = (sign b \<noteq> sign a)"
    by auto
  then show ?thesis
    by (auto simp add: fmul_def mult.commute add.commute)
qed

section \<open>The reinterpretation of the bits\<close>

lemma float_bits_sign: "bit (float_bits f) 31 = sign f"
  by (auto simp add: float_bits_def bit_simps dest: bit_imp_le_length)

lemma float_bits_expo: "ucast (drop_bit 23 (float_bits f)) = expo f"
  by (rule bit_word_eqI) (auto simp add: float_bits_def bit_simps dest: bit_imp_le_length)

lemma float_bits_fraction: "ucast (float_bits f) = fraction f"
  by (rule bit_word_eqI) (auto simp add: float_bits_def bit_simps)

lemma bits_float_inverse: "bits_float (float_bits f) = f"
  by (simp add: bits_float_def float_bits_sign float_bits_expo float_bits_fraction)

lemma float_bits_inverse: "float_bits (bits_float w) = w"
proof (rule bit_word_eqI)
  fix n assume n: "n < LENGTH(32)"
  have "n < 23 \<or> (23 \<le> n \<and> n < 31) \<or> n = 31" using n by auto
  then show "bit (float_bits (bits_float w)) n = bit w n"
    by (auto simp add: float_bits_def bits_float_def bit_simps)
qed

section \<open>Runs of \<open>inv_sqrt\<close> on particular inputs\<close>

lemma y0_four:
  "bits_float (magic - signed_drop_bit 1 (float_bits (mk_float False 129 0))) = (mk_float False 125 7821791)"
  by (simp add: magic_def bits_float_def float_bits_def mk_float_def)

lemma x2_four: "fmul (mk_float False 129 0) float_half = (mk_float False 128 0)"
  by (simp add: fp_eval)

lemma a_four:
  "fmul (mk_float False 128 0) (mk_float False 125 7821791) = (mk_float False 126 7821791)"
  by (simp add: fp_eval)

lemma u_four:
  "fmul (mk_float False 126 7821791) (mk_float False 125 7821791) = (mk_float False 125 7274124)"
  by (simp add: fp_eval)

lemma c_four: "fsub threehalfs (mk_float False 125 7274124) = (mk_float False 127 278621)"
  by (simp add: fp_eval)

lemma r_four:
  "fmul (mk_float False 125 7821791) (mk_float False 127 278621) = (mk_float False 125 8360207)"
  by (simp add: fp_eval)

lemma inv_sqrt_four: "inv_sqrt (mk_float False 129 0) = (mk_float False 125 8360207)"
  by (simp only: inv_sqrt_def inv_sqrt_body_y Let_def y0_four x2_four a_four u_four c_four r_four)


lemma y0_pzero:
  "bits_float (magic - signed_drop_bit 1 (float_bits (mk_float False 0 0))) = (mk_float False 190 3627487)"
  by (simp add: magic_def bits_float_def float_bits_def mk_float_def)

lemma x2_pzero: "fmul (mk_float False 0 0) float_half = (mk_float False 0 0)"
  by (simp add: fp_eval)

lemma a_pzero:
  "fmul (mk_float False 0 0) (mk_float False 190 3627487) = (mk_float False 0 0)"
  by (simp add: fp_eval)

lemma u_pzero:
  "fmul (mk_float False 0 0) (mk_float False 190 3627487) = (mk_float False 0 0)"
  by (simp add: fp_eval)

lemma c_pzero: "fsub threehalfs (mk_float False 0 0) = (mk_float False 127 4194304)"
  by (simp add: fp_eval)

lemma r_pzero:
  "fmul (mk_float False 190 3627487) (mk_float False 127 4194304) = (mk_float False 191 623463)"
  by (simp add: fp_eval)

lemma inv_sqrt_pzero: "inv_sqrt (mk_float False 0 0) = (mk_float False 191 623463)"
  by (simp only: inv_sqrt_def inv_sqrt_body_y Let_def y0_pzero x2_pzero a_pzero u_pzero c_pzero r_pzero)











lemma y0_nzero:
  "bits_float (magic - signed_drop_bit 1 (float_bits (mk_float True 0 0))) = (mk_float True 62 3627487)"
  by (simp add: magic_def bits_float_def float_bits_def mk_float_def)

lemma x2_nzero: "fmul (mk_float True 0 0) float_half = (mk_float True 0 0)"
  by (simp add: fp_eval)

lemma a_nzero:
  "fmul (mk_float True 0 0) (mk_float True 62 3627487) = (mk_float False 0 0)"
  by (simp add: fp_eval)

lemma u_nzero:
  "fmul (mk_float False 0 0) (mk_float True 62 3627487) = (mk_float True 0 0)"
  by (simp add: fp_eval)

lemma c_nzero: "fsub threehalfs (mk_float True 0 0) = (mk_float False 127 4194304)"
  by (simp add: fp_eval)

lemma r_nzero:
  "fmul (mk_float True 62 3627487) (mk_float False 127 4194304) = (mk_float True 63 623463)"
  by (simp add: fp_eval)

lemma inv_sqrt_nzero: "inv_sqrt (mk_float True 0 0) = (mk_float True 63 623463)"
  by (simp only: inv_sqrt_def inv_sqrt_body_y Let_def y0_nzero x2_nzero a_nzero u_nzero c_nzero r_nzero)


lemma y0_pinf:
  "bits_float (magic - signed_drop_bit 1 (float_bits (mk_float False 255 0))) = (mk_float False 62 7821791)"
  by (simp add: magic_def bits_float_def float_bits_def mk_float_def)

lemma x2_pinf: "fmul (mk_float False 255 0) float_half = (mk_float False 255 0)"
  by (simp add: fp_eval)

lemma a_pinf:
  "fmul (mk_float False 255 0) (mk_float False 62 7821791) = (mk_float False 255 0)"
  by (simp add: fp_eval)

lemma u_pinf:
  "fmul (mk_float False 255 0) (mk_float False 62 7821791) = (mk_float False 255 0)"
  by (simp add: fp_eval)

lemma c_pinf: "fsub threehalfs (mk_float False 255 0) = (mk_float True 255 0)"
  by (simp add: fp_eval)

lemma r_pinf:
  "fmul (mk_float False 62 7821791) (mk_float True 255 0) = (mk_float True 255 0)"
  by (simp add: fp_eval)

lemma inv_sqrt_pinf: "inv_sqrt (mk_float False 255 0) = (mk_float True 255 0)"
  by (simp only: inv_sqrt_def inv_sqrt_body_y Let_def y0_pinf x2_pinf a_pinf u_pinf c_pinf r_pinf)


lemma y0_ninf:
  "bits_float (magic - signed_drop_bit 1 (float_bits (mk_float True 255 0))) = (mk_float False 190 7821791)"
  by (simp add: magic_def bits_float_def float_bits_def mk_float_def)

lemma x2_ninf: "fmul (mk_float True 255 0) float_half = (mk_float True 255 0)"
  by (simp add: fp_eval)

lemma a_ninf:
  "fmul (mk_float True 255 0) (mk_float False 190 7821791) = (mk_float True 255 0)"
  by (simp add: fp_eval)

lemma u_ninf:
  "fmul (mk_float True 255 0) (mk_float False 190 7821791) = (mk_float True 255 0)"
  by (simp add: fp_eval)

lemma c_ninf: "fsub threehalfs (mk_float True 255 0) = (mk_float False 255 0)"
  by (simp add: fp_eval)

lemma r_ninf:
  "fmul (mk_float False 190 7821791) (mk_float False 255 0) = (mk_float False 255 0)"
  by (simp add: fp_eval)

lemma inv_sqrt_ninf: "inv_sqrt (mk_float True 255 0) = (mk_float False 255 0)"
  by (simp only: inv_sqrt_def inv_sqrt_body_y Let_def y0_ninf x2_ninf a_ninf u_ninf c_ninf r_ninf)


lemma y0_tiny:
  "bits_float (magic - signed_drop_bit 1 (float_bits (mk_float False 0 1))) = (mk_float False 190 3627487)"
  by (simp add: magic_def bits_float_def float_bits_def mk_float_def)

lemma x2_tiny: "fmul (mk_float False 0 1) float_half = (mk_float False 0 0)"
  by (simp add: fp_eval)

lemma a_tiny:
  "fmul (mk_float False 0 0) (mk_float False 190 3627487) = (mk_float False 0 0)"
  by (simp add: fp_eval)

lemma u_tiny:
  "fmul (mk_float False 0 0) (mk_float False 190 3627487) = (mk_float False 0 0)"
  by (simp add: fp_eval)

lemma c_tiny: "fsub threehalfs (mk_float False 0 0) = (mk_float False 127 4194304)"
  by (simp add: fp_eval)

lemma r_tiny:
  "fmul (mk_float False 190 3627487) (mk_float False 127 4194304) = (mk_float False 191 623463)"
  by (simp add: fp_eval)

lemma inv_sqrt_tiny: "inv_sqrt (mk_float False 0 1) = (mk_float False 191 623463)"
  by (simp only: inv_sqrt_def inv_sqrt_body_y Let_def y0_tiny x2_tiny a_tiny u_tiny c_tiny r_tiny)


lemma y0_mone:
  "bits_float (magic - signed_drop_bit 1 (float_bits (mk_float True 127 0))) = (mk_float False 254 7821791)"
  by (simp add: magic_def bits_float_def float_bits_def mk_float_def)

lemma x2_mone: "fmul (mk_float True 127 0) float_half = (mk_float True 126 0)"
  by (simp add: fp_eval)

lemma a_mone:
  "fmul (mk_float True 126 0) (mk_float False 254 7821791) = (mk_float True 253 7821791)"
  by (simp add: fp_eval)

lemma u_mone:
  "fmul (mk_float True 253 7821791) (mk_float False 254 7821791) = (mk_float True 255 0)"
  by (simp add: fp_eval)

lemma c_mone: "fsub threehalfs (mk_float True 255 0) = (mk_float False 255 0)"
  by (simp add: fp_eval)

lemma r_mone:
  "fmul (mk_float False 254 7821791) (mk_float False 255 0) = (mk_float False 255 0)"
  by (simp add: fp_eval)

lemma inv_sqrt_mone: "inv_sqrt (mk_float True 127 0) = (mk_float False 255 0)"
  by (simp only: inv_sqrt_def inv_sqrt_body_y Let_def y0_mone x2_mone a_mone u_mone c_mone r_mone)

































lemma y0_unit:
  "bits_float (magic - signed_drop_bit 1 (float_bits (mk_float False 127 0))) = (mk_float False 126 7821791)"
  by (simp add: magic_def bits_float_def float_bits_def mk_float_def)

lemma x2_unit: "fmul (mk_float False 127 0) float_half = (mk_float False 126 0)"
  by (simp add: fp_eval)

lemma a_unit:
  "fmul (mk_float False 126 0) (mk_float False 126 7821791) = (mk_float False 125 7821791)"
  by (simp add: fp_eval)

lemma u_unit:
  "fmul (mk_float False 125 7821791) (mk_float False 126 7821791) = (mk_float False 125 7274124)"
  by (simp add: fp_eval)

lemma c_unit: "fsub threehalfs (mk_float False 125 7274124) = (mk_float False 127 278621)"
  by (simp add: fp_eval)

lemma r_unit:
  "fmul (mk_float False 126 7821791) (mk_float False 127 278621) = (mk_float False 126 8360207)"
  by (simp add: fp_eval)

lemma inv_sqrt_unit: "inv_sqrt (mk_float False 127 0) = (mk_float False 126 8360207)"
  by (simp only: inv_sqrt_def inv_sqrt_body_y Let_def y0_unit x2_unit a_unit u_unit c_unit r_unit)

lemma y0_lo:
  "bits_float (magic - signed_drop_bit 1 (float_bits (mk_float False 1 1))) = (mk_float False 189 7821791)"
  by (simp add: magic_def bits_float_def float_bits_def mk_float_def)

lemma x2_lo: "fmul (mk_float False 1 1) float_half = (mk_float False 0 4194304)"
  by (simp add: fp_eval)

lemma a_lo:
  "fmul (mk_float False 0 4194304) (mk_float False 189 7821791) = (mk_float False 62 7821791)"
  by (simp add: fp_eval)

lemma u_lo:
  "fmul (mk_float False 62 7821791) (mk_float False 189 7821791) = (mk_float False 125 7274124)"
  by (simp add: fp_eval)

lemma c_lo: "fsub threehalfs (mk_float False 125 7274124) = (mk_float False 127 278621)"
  by (simp add: fp_eval)

lemma r_lo:
  "fmul (mk_float False 189 7821791) (mk_float False 127 278621) = (mk_float False 189 8360207)"
  by (simp add: fp_eval)

lemma inv_sqrt_lo: "inv_sqrt (mk_float False 1 1) = (mk_float False 189 8360207)"
  by (simp only: inv_sqrt_def inv_sqrt_body_y Let_def y0_lo x2_lo a_lo u_lo c_lo r_lo)


lemma y0_lo4:
  "bits_float (magic - signed_drop_bit 1 (float_bits (mk_float False 3 1))) = (mk_float False 188 7821791)"
  by (simp add: magic_def bits_float_def float_bits_def mk_float_def)

lemma x2_lo4: "fmul (mk_float False 3 1) float_half = (mk_float False 2 1)"
  by (simp add: fp_eval)

lemma a_lo4:
  "fmul (mk_float False 2 1) (mk_float False 188 7821791) = (mk_float False 63 7821793)"
  by (simp add: fp_eval)

lemma u_lo4:
  "fmul (mk_float False 63 7821793) (mk_float False 188 7821791) = (mk_float False 125 7274126)"
  by (simp add: fp_eval)

lemma c_lo4: "fsub threehalfs (mk_float False 125 7274126) = (mk_float False 127 278620)"
  by (simp add: fp_eval)

lemma r_lo4:
  "fmul (mk_float False 188 7821791) (mk_float False 127 278620) = (mk_float False 188 8360205)"
  by (simp add: fp_eval)

lemma inv_sqrt_lo4: "inv_sqrt (mk_float False 3 1) = (mk_float False 188 8360205)"
  by (simp only: inv_sqrt_def inv_sqrt_body_y Let_def y0_lo4 x2_lo4 a_lo4 u_lo4 c_lo4 r_lo4)



lemma valof_magic: "valof (mk_float False 190 3627487) = 12016095 * 2 ^ 40"
  by (simp add: valof_def mant_def expn_def mk_float_def)



section \<open>Rounding: the error of \<open>round_pack\<close>\<close>

lemma bit_length_bounds: "0 < m \<Longrightarrow> 2 ^ (bit_length m - 1) \<le> m \<and> m < 2 ^ bit_length m"
proof (induction m rule: bit_length.induct)
  case (1 n)
  show ?case
  proof (cases "n div 2 = 0")
    case True
    with "1.prems" have "n = 1" by (auto simp add: div_eq_0_iff)
    then show ?thesis by (simp add: bit_length_Suc_0)
  next
    case False
    then have pos: "0 < n div 2" by simp
    with "1.IH" "1.prems" have ih: "2 ^ (bit_length (n div 2) - 1) \<le> n div 2"
      "n div 2 < 2 ^ bit_length (n div 2)" by auto
    have bl: "bit_length n = Suc (bit_length (n div 2))"
      using "1.prems" by (subst bit_length.simps) simp
    have "0 < bit_length (n div 2)"
      using pos by (subst bit_length.simps) simp
    then have e: "2 ^ (bit_length n - 1) = 2 * 2 ^ (bit_length (n div 2) - 1)"
      unfolding bl by (cases "bit_length (n div 2)") simp_all
    show ?thesis
      unfolding e using ih unfolding bl by (simp; linarith)
  qed
qed

lemma round_shift_error:
  assumes "0 < d"
  shows "2 * round_shift m d * 2 ^ d \<le> 2 * m + 2 ^ d \<and> 2 * m \<le> 2 * round_shift m d * 2 ^ d + 2 ^ d"
proof -
  define q where "q = m div 2 ^ d"
  define r where "r = m mod 2 ^ d"
  have m: "m = q * 2 ^ d + r" unfolding q_def r_def by (rule div_mult_mod_eq [symmetric])
  have r: "r < 2 ^ d" by (simp add: r_def)
  have h: "(2::nat) ^ d = 2 * 2 ^ (d - 1)"
    using assms by (cases d) simp_all
  have rs: "round_shift m d = (if r > 2 ^ (d - 1) \<or> (r = 2 ^ (d - 1) \<and> odd q) then q + 1 else q)"
    using assms by (simp add: round_shift_def round_up_def q_def r_def)
  show ?thesis
    unfolding rs using r h unfolding m by (auto simp add: algebra_simps)
qed

lemma round_shift_upper:
  assumes "0 < d" "m < 2 ^ (d + 24)"
  shows "round_shift m d \<le> 2 ^ 24"
proof -
  have "m < 2 ^ 24 * 2 ^ d" using assms(2) by (simp add: power_add mult.commute)
  then have "m div 2 ^ d < 2 ^ 24" by (simp add: less_mult_imp_div_less)
  moreover have "round_shift m d \<le> m div 2 ^ d + 1"
    using assms(1) by (simp add: round_shift_def round_up_def)
  ultimately show ?thesis by linarith
qed

lemma round_shift_lower:
  assumes "0 < d" "2 ^ (d + 23) \<le> m"
  shows "2 ^ 23 \<le> round_shift m d"
proof -
  have "2 ^ 23 * 2 ^ d \<le> m" using assms(2) by (simp add: power_add mult.commute)
  then have "2 ^ 23 \<le> m div 2 ^ d" by (simp add: less_eq_div_iff_mult_less_eq)
  moreover have "m div 2 ^ d \<le> round_shift m d"
    using assms(1) by (simp add: round_shift_def round_up_def)
  ultimately show ?thesis by linarith
qed

lemma round_shift_real:
  assumes "0 < d"
  shows "\<bar>real (round_shift m d) * 2 ^ d - real m\<bar> \<le> 2 ^ d / 2"
proof -
  define x where "x = real (round_shift m d) * 2 ^ d"
  from round_shift_error [OF assms, of m]
  have "real (2 * round_shift m d * 2 ^ d) \<le> real (2 * m + 2 ^ d)"
    "real (2 * m) \<le> real (2 * round_shift m d * 2 ^ d + 2 ^ d)"
    by (simp_all only: of_nat_le_iff)
  then have "2 * x \<le> 2 * real m + 2 ^ d" "2 * real m \<le> 2 * x + 2 ^ d"
    by (simp_all add: x_def mult.assoc)
  then show ?thesis
    unfolding x_def [symmetric] by linarith
qed

lemma valof_mag: "valof f = (if sign f then - 1 else 1) * mag f"
  by (simp add: valof_def mag_def)

lemma expo_zero_iff: "expo f = 0 \<longleftrightarrow> unat (expo f) = 0"
  by (simp add: unat_eq_0)

lemma expo_max_iff: "expo f = 255 \<longleftrightarrow> unat (expo f) = 255"
  by (simp add: word_unat_eq_iff)

lemma mant_unat:
  "mant f = (if unat (expo f) = 0 then unat (fraction f) else 2 ^ 23 + unat (fraction f))"
  by (simp add: mant_def expo_zero_iff)

lemma expn_unat:
  "expn f = (if unat (expo f) = 0 then - 149 else int (unat (expo f)) - 150)"
  by (simp add: expn_def expo_zero_iff)

lemma mk_float_fields:
  assumes "e < 256" "m < 2 ^ 23"
  shows "sign (mk_float s e m) = s" "unat (expo (mk_float s e m)) = e"
    "unat (fraction (mk_float s e m)) = m"
  using assms by (simp_all add: mk_float_def unat_of_nat)

lemma mk_float_mant:
  assumes "e < 256" "m < 2 ^ 23"
  shows "mant (mk_float s e m) = (if e = 0 then m else 2 ^ 23 + m)"
  unfolding mant_unat mk_float_fields [OF assms] by simp

lemma mk_float_expn:
  assumes "e < 256" "m < 2 ^ 23"
  shows "expn (mk_float s e m) = (if e = 0 then - 149 else int e - 150)"
  unfolding expn_unat mk_float_fields [OF assms] by simp

lemma mk_float_finite:
  assumes "e < 255" "m < 2 ^ 23"
  shows "is_finite (mk_float s e m)"
  using assms mk_float_fields(2) [of e m s] by (simp add: is_finite_def expo_max_iff)

lemma pack_mag:
  assumes "q \<le> 2 ^ 24" "q < 2 ^ 23 \<longrightarrow> e = - 149" "- 149 \<le> e" "e \<le> 103"
  shows "sign (pack s q e) = s" "is_finite (pack s q e)"
    "mag (pack s q e) = real q * 2 powi e"
proof -
  consider (sub) "q < 2 ^ 23" | (carry) "q = 2 ^ 24" | (norm) "2 ^ 23 \<le> q" "q < 2 ^ 24"
    using assms(1) by linarith
  then have "sign (pack s q e) = s \<and> is_finite (pack s q e) \<and>
    mag (pack s q e) = real q * 2 powi e"
  proof cases
    case sub
    then have p: "pack s q e = mk_float s 0 q" by (simp add: pack_def)
    have e: "e = - 149" using sub assms(2) by simp
    have b: "(0::nat) < 256" "(0::nat) < 255" by simp_all
    show ?thesis
      unfolding p mag_def mk_float_mant [OF b(1) sub] mk_float_expn [OF b(1) sub]
      using mk_float_fields(1) [OF b(1) sub] mk_float_finite [OF b(2) sub] e by simp
  next
    case carry
    then have p: "pack s q e = mk_float s (nat (e + 151)) 0"
      using assms(4) by (simp add: pack_def)
    have b: "nat (e + 151) < 256" "nat (e + 151) < 255" "(0::nat) < 2 ^ 23"
      using assms(3,4) by auto
    have "2 powi (1 + e) = (2::real) * 2 powi e"
      by (simp add: power_int_add)
    then show ?thesis
      unfolding p mag_def mk_float_mant [OF b(1,3)] mk_float_expn [OF b(1,3)]
      using mk_float_fields(1) [OF b(1,3)] mk_float_finite [OF b(2,3)] assms(3) carry
      by simp
  next
    case norm
    then have p: "pack s q e = mk_float s (nat (e + 150)) (q - 2 ^ 23)"
      using assms(4) by (simp add: pack_def)
    have b: "nat (e + 150) < 256" "nat (e + 150) < 255" "q - 2 ^ 23 < 2 ^ 23"
      using assms(3,4) norm by auto
    show ?thesis
      unfolding p mag_def mk_float_mant [OF b(1,3)] mk_float_expn [OF b(1,3)]
      using mk_float_fields(1) [OF b(1,3)] mk_float_finite [OF b(2,3)] assms(3) norm by simp
  qed
  then show "sign (pack s q e) = s" "is_finite (pack s q e)"
    "mag (pack s q e) = real q * 2 powi e" by simp_all
qed

lemma round_pack_mag:
  assumes m: "0 < m" and e': "e' = max (e + int (bit_length m) - 24) (- 149)"
    and hi: "e' \<le> 103"
  shows "sign (round_pack s m e) = s" "is_finite (round_pack s m e)"
    "\<bar>mag (round_pack s m e) - real m * 2 powi e\<bar> \<le> 2 powi e' / 2"
proof -
  define k where "k = bit_length m"
  have k: "2 ^ (k - 1) \<le> m" "m < 2 ^ k"
    using bit_length_bounds [OF m] by (simp_all add: k_def)
  have kpos: "0 < k"
    using m k(2) by (cases k) simp_all
  have lo: "- 149 \<le> e'" "e + int k - 24 \<le> e'"
    by (simp_all add: e' k_def)
  have rp: "round_pack s m e = round_at s m e e'"
    using m by (simp add: round_pack_def e')
  have "sign (round_pack s m e) = s \<and> is_finite (round_pack s m e) \<and>
    \<bar>mag (round_pack s m e) - real m * 2 powi e\<bar> \<le> 2 powi e' / 2"
  proof (cases "e' \<le> e")
    case True
    define j where "j = nat (e - e')"
    have j: "e = e' + int j" using True by (simp add: j_def)
    have jk: "j + k \<le> 24" using lo(2) j by linarith
    have "m * 2 ^ j < 2 ^ k * 2 ^ j" using k(2) by simp
    also have "\<dots> = 2 ^ (j + k)" by (simp add: power_add)
    also have "\<dots> \<le> 2 ^ 24" using jk by (intro power_increasing) simp_all
    finally have q1: "m * 2 ^ j \<le> 2 ^ 24" by simp
    have q2: "m * 2 ^ j < 2 ^ 23 \<longrightarrow> e' = - 149"
    proof (rule impI, rule ccontr)
      assume a: "m * 2 ^ j < 2 ^ 23" "e' \<noteq> - 149"
      then have "e' = e + int k - 24" using e' by (simp add: k_def)
      then have "j + k = 24" using j by linarith
      then have "k - 1 + j = 23" using kpos by linarith
      then have "(2::nat) ^ 23 = 2 ^ (k - 1) * 2 ^ j" by (simp flip: power_add)
      also have "\<dots> \<le> m * 2 ^ j" using k(1) by simp
      finally show False using a(1) by simp
    qed
    have ra: "round_at s m e e' = pack s (m * 2 ^ j) e'"
      using True by (simp add: round_at_def j_def)
    have "(2::real) powi e = 2 powi e' * 2 ^ j"
      unfolding j by (simp add: power_int_add)
    then have eq: "real (m * 2 ^ j) * 2 powi e' = real m * 2 powi e" by simp
    show ?thesis
      unfolding rp ra pack_mag(3) [OF q1 q2 lo(1) hi] eq
      using pack_mag(1,2) [OF q1 q2 lo(1) hi, of s] by simp
  next
    case False
    define d where "d = nat (e' - e)"
    have d: "e' = e + int d" "0 < d" using False by (simp_all add: d_def)
    have ra: "round_at s m e e' = pack s (round_shift m d) e'"
      using False by (simp add: round_at_def d_def)
    have "k \<le> d + 24" using lo(2) d(1) by linarith
    then have "(2::nat) ^ k \<le> 2 ^ (d + 24)" by (intro power_increasing) simp_all
    then have q1: "round_shift m d \<le> 2 ^ 24"
      using k(2) by (intro round_shift_upper [OF d(2)]) linarith
    have q2: "round_shift m d < 2 ^ 23 \<longrightarrow> e' = - 149"
    proof (rule impI, rule ccontr)
      assume a: "round_shift m d < 2 ^ 23" "e' \<noteq> - 149"
      then have "e' = e + int k - 24" using e' by (simp add: k_def)
      then have "k - 1 = d + 23" using d(1) kpos by linarith
      then have "2 ^ (d + 23) \<le> m" using k(1) by simp
      from round_shift_lower [OF d(2) this] show False using a(1) by simp
    qed
    have p: "(2::real) powi e' = 2 powi e * 2 ^ d"
      unfolding d(1) by (simp add: power_int_add)
    have "real (round_shift m d) * 2 powi e' - real m * 2 powi e
        = (real (round_shift m d) * 2 ^ d - real m) * 2 powi e"
      unfolding p by (simp add: algebra_simps)
    then have "\<bar>real (round_shift m d) * 2 powi e' - real m * 2 powi e\<bar>
        = \<bar>real (round_shift m d) * 2 ^ d - real m\<bar> * 2 powi e"
      by (simp add: abs_mult)
    also have "\<dots> \<le> 2 ^ d / 2 * 2 powi e"
      by (intro mult_right_mono round_shift_real [OF d(2)]) simp
    also have "\<dots> = 2 powi e' / 2" unfolding p by simp
    finally show ?thesis
      unfolding rp ra using pack_mag [OF q1 q2 lo(1) hi, of s] by simp
  qed
  then show "sign (round_pack s m e) = s" "is_finite (round_pack s m e)"
    "\<bar>mag (round_pack s m e) - real m * 2 powi e\<bar> \<le> 2 powi e' / 2" by simp_all
qed

lemma pos_of_powi_le:
  fixes x :: real
  assumes "2 powi k \<le> x"
  shows "0 < x"
proof -
  have "(0::real) < 2 powi k" by simp
  with assms show ?thesis by linarith
qed

lemma two_powi_le_iff: "(2::real) powi a \<le> 2 powi b \<longleftrightarrow> a \<le> b"
proof
  assume h: "(2::real) powi a \<le> 2 powi b"
  show "a \<le> b"
  proof (rule ccontr)
    assume "\<not> a \<le> b"
    then have "b < a" by simp
    from power_int_strict_increasing [OF this, of "2::real"] h show False by simp
  qed
next
  assume "a \<le> b"
  then show "(2::real) powi a \<le> 2 powi b" by (intro power_int_increasing) simp_all
qed

lemma two_powi_less_iff: "(2::real) powi a < 2 powi b \<longleftrightarrow> a < b"
  using two_powi_le_iff [of b a] by (simp add: not_le [symmetric])

lemma round_pack_rel:
  assumes m: "0 < m" and P: "real m * 2 powi e < 2 powi 127"
  shows "sign (round_pack s m e) = s" "is_finite (round_pack s m e)"
    "\<bar>mag (round_pack s m e) - real m * 2 powi e\<bar>
       \<le> max (real m * 2 powi e / 2 ^ 24) (2 powi (- 150))"
proof -
  define k where "k = bit_length m"
  define e' where "e' = max (e + int k - 24) (- 149)"
  have k: "2 ^ (k - 1) \<le> m" "m < 2 ^ k"
    using bit_length_bounds [OF m] by (simp_all add: k_def)
  have kpos: "0 < k"
    using m k(2) by (cases k) simp_all
  have kr: "(2::real) ^ (k - 1) \<le> real m"
    using k(1) by (metis of_nat_le_iff of_nat_numeral of_nat_power)
  have "int k - 1 = int (k - 1)"
    using kpos by simp
  then have "(2::real) powi (int k - 1) = 2 ^ (k - 1)"
    by (simp only: power_int_of_nat)
  with kr have km: "2 powi (int k - 1) \<le> real m" by (simp only:)
  have low: "2 powi (e + int k - 1) \<le> real m * 2 powi e"
  proof -
    have "(2::real) powi (e + int k - 1) = 2 powi (int k - 1) * 2 powi e"
      by (simp add: power_int_add [symmetric] algebra_simps)
    also have "\<dots> \<le> real m * 2 powi e"
      by (intro mult_right_mono km) simp
    finally show ?thesis .
  qed
  then have "(2::real) powi (e + int k - 1) < 2 powi 127" using P by linarith
  then have "e + int k - 1 < 127" by (simp only: two_powi_less_iff)
  then have hi: "e' \<le> 103" by (simp add: e'_def)
  have e'': "e' = max (e + int (bit_length m) - 24) (- 149)"
    by (simp add: e'_def k_def)
  note rp = round_pack_mag [OF m e'' hi, of s]
  have "2 powi e' / 2 \<le> max (real m * 2 powi e / 2 ^ 24) (2 powi (- 150))"
  proof (cases "e + int k - 24 \<le> - 149")
    case True
    then have "e' = - 149" by (simp add: e'_def)
    then show ?thesis by (simp add: max_def)
  next
    case False
    then have e': "e' = e + int k - 24" by (simp add: e'_def)
    have "(2::real) powi e' / 2 = 2 powi (e + int k - 1) * 2 powi (- 24)"
      unfolding e' by (simp add: power_int_add [symmetric] power_int_diff)
    also have "\<dots> = 2 powi (e + int k - 1) / 2 ^ 24" by simp
    also have "\<dots> \<le> real m * 2 powi e / 2 ^ 24"
      using low by (simp add: divide_right_mono)
    finally show ?thesis by simp
  qed
  with rp(3) show "\<bar>mag (round_pack s m e) - real m * 2 powi e\<bar>
       \<le> max (real m * 2 powi e / 2 ^ 24) (2 powi (- 150))" by linarith
  show "sign (round_pack s m e) = s" "is_finite (round_pack s m e)"
    using rp(1,2) by simp_all
qed

lemma finite_not_special: "is_finite a \<Longrightarrow> \<not> is_nan a \<and> \<not> is_inf a"
  by (simp add: is_finite_def is_nan_def is_inf_def)

lemma fmul_finite:
  assumes "is_finite a" "is_finite b"
  shows "fmul a b = round_pack (sign a \<noteq> sign b) (mant a * mant b) (expn a + expn b)"
  using finite_not_special [OF assms(1)] finite_not_special [OF assms(2)]
  by (simp add: fmul_def)

lemma mag_nonneg: "0 \<le> mag a"
  by (simp add: mag_def)

lemma mag_mult: "real (mant a * mant b) * 2 powi (expn a + expn b) = mag a * mag b"
  by (simp add: mag_def power_int_add)

lemma abs_valof: "\<bar>valof a\<bar> = mag a"
  using mag_nonneg [of a] by (simp add: valof_mag)

lemma fmul_valof:
  assumes fin: "is_finite a" "is_finite b"
    and nz: "valof a * valof b \<noteq> 0"
    and hi: "\<bar>valof a * valof b\<bar> < 2 powi 127"
  shows "is_finite (fmul a b)"
    "\<bar>valof (fmul a b) - valof a * valof b\<bar>
       \<le> max (\<bar>valof a * valof b\<bar> / 2 ^ 24) (2 powi (- 150))"
proof -
  have ab: "\<bar>valof a * valof b\<bar> = mag a * mag b"
    by (simp add: abs_mult abs_valof)
  have "mag a * mag b \<noteq> 0" using nz ab by linarith
  then have "mant a * mant b \<noteq> 0"
    by (auto simp add: mag_def)
  then have m: "0 < mant a * mant b" by simp
  have P: "real (mant a * mant b) * 2 powi (expn a + expn b) < 2 powi 127"
    unfolding mag_mult using hi ab by simp
  note rp = round_pack_rel [OF m P, of "sign a \<noteq> sign b", unfolded mag_mult,
      folded fmul_finite [OF fin]]
  show "is_finite (fmul a b)" by (rule rp(2))
  have v: "valof (fmul a b) - valof a * valof b
      = (if sign a \<noteq> sign b then - 1 else 1) * (mag (fmul a b) - mag a * mag b)"
    unfolding valof_mag [of "fmul a b"] rp(1) by (simp add: valof_mag)
  have "\<bar>valof (fmul a b) - valof a * valof b\<bar> = \<bar>mag (fmul a b) - mag a * mag b\<bar>"
    unfolding v by (simp add: abs_mult)
  then show "\<bar>valof (fmul a b) - valof a * valof b\<bar>
       \<le> max (\<bar>valof a * valof b\<bar> / 2 ^ 24) (2 powi (- 150))"
    using rp(3) ab by simp
qed

section \<open>Sums and differences\<close>

lemma signed_mant_real:
  assumes "e \<le> expn a"
  shows "real_of_int (signed_mant a e) * 2 powi e = valof a"
proof -
  define j where "j = nat (expn a - e)"
  have j: "expn a = e + int j" using assms by (simp add: j_def)
  have "(2::real) powi expn a = 2 ^ j * 2 powi e"
    unfolding j by (simp add: power_int_add)
  then show ?thesis
    by (simp add: signed_mant_def valof_def j_def [symmetric])
qed

lemma fadd_finite:
  assumes "is_finite a" "is_finite b"
  shows "fadd a b = sum_pack (sign a \<and> sign b)
    (signed_mant a (min (expn a) (expn b)) + signed_mant b (min (expn a) (expn b)))
    (min (expn a) (expn b))"
  using finite_not_special [OF assms(1)] finite_not_special [OF assms(2)]
  by (simp add: fadd_def add_finite_def)

lemma fadd_valof:
  assumes fin: "is_finite a" "is_finite b"
    and nz: "valof a + valof b \<noteq> 0"
    and hi: "\<bar>valof a + valof b\<bar> < 2 powi 127"
  shows "is_finite (fadd a b)"
    "\<bar>valof (fadd a b) - (valof a + valof b)\<bar>
       \<le> max (\<bar>valof a + valof b\<bar> / 2 ^ 24) (2 powi (- 150))"
proof -
  define e where "e = min (expn a) (expn b)"
  define v where "v = signed_mant a e + signed_mant b e"
  define S where "S = valof a + valof b"
  have vS: "real_of_int v * 2 powi e = S"
    unfolding v_def S_def
    using signed_mant_real [of e a] signed_mant_real [of e b]
    by (simp add: e_def algebra_simps)
  have vnz: "v \<noteq> 0" using nz vS by (auto simp add: S_def)
  have sgn: "(v < 0) = (S < 0)"
  proof -
    have p: "0 < (2::real) powi e" by simp
    have "(S < 0) = (real_of_int v < 0)"
      unfolding vS [symmetric]
      using mult_less_cancel_right_pos [OF p, of "real_of_int v" 0] by simp
    then show ?thesis by simp
  qed
  have m: "0 < nat \<bar>v\<bar>" using vnz by simp
  have mS: "real (nat \<bar>v\<bar>) * 2 powi e = \<bar>S\<bar>"
    unfolding vS [symmetric] by (simp add: abs_mult)
  have P: "real (nat \<bar>v\<bar>) * 2 powi e < 2 powi 127"
    unfolding mS using hi by (simp add: S_def)
  have fa: "fadd a b = round_pack (v < 0) (nat \<bar>v\<bar>) e"
    unfolding fadd_finite [OF fin] sum_pack_def using vnz by (simp add: v_def e_def)
  note rp = round_pack_rel [OF m P, of "v < 0", folded fa, unfolded mS]
  show "is_finite (fadd a b)" by (rule rp(2))
  have "valof (fadd a b) - S = (if S < 0 then - 1 else 1) * (mag (fadd a b) - \<bar>S\<bar>)"
    unfolding valof_mag [of "fadd a b"] rp(1) sgn by (simp add: algebra_simps)
  then have "\<bar>valof (fadd a b) - S\<bar> = \<bar>mag (fadd a b) - \<bar>S\<bar>\<bar>"
    by (simp add: abs_mult)
  then show "\<bar>valof (fadd a b) - (valof a + valof b)\<bar>
       \<le> max (\<bar>valof a + valof b\<bar> / 2 ^ 24) (2 powi (- 150))"
    using rp(3) by (simp add: S_def)
qed

lemma fneg_fields: "sign (fneg b) = (\<not> sign b)" "mant (fneg b) = mant b"
  "expn (fneg b) = expn b" "is_finite (fneg b) = is_finite b"
  by (simp_all add: fneg_def is_finite_def mant_def expn_def)

lemma fneg_props: "is_finite (fneg b) = is_finite b" "valof (fneg b) = - valof b"
  by (simp_all add: valof_def fneg_fields)

lemma fsub_valof:
  assumes fin: "is_finite a" "is_finite b"
    and nz: "valof a - valof b \<noteq> 0"
    and hi: "\<bar>valof a - valof b\<bar> < 2 powi 127"
  shows "is_finite (fsub a b)"
    "\<bar>valof (fsub a b) - (valof a - valof b)\<bar>
       \<le> max (\<bar>valof a - valof b\<bar> / 2 ^ 24) (2 powi (- 150))"
  using fadd_valof [of a "fneg b"] assms by (simp_all add: fsub_def fneg_props)

section \<open>The fields of the initial estimate\<close>

lemma bits_float_fields:
  "sign (bits_float w) = (2 ^ 31 \<le> unat w)"
  "unat (expo (bits_float w)) = unat w div 2 ^ 23 mod 256"
  "unat (fraction (bits_float w)) = unat w mod 2 ^ 23"
proof -
  have "bit w 31 = bit (unat w) 31" by (simp add: bit_unsigned_iff)
  also have "\<dots> = odd (unat w div 2 ^ 31)" by (simp add: bit_iff_odd)
  also have "\<dots> = (2 ^ 31 \<le> unat w)"
  proof -
    have "unat w < 2 ^ 32" using unsigned_less [of w] by simp
    then have "unat w div 2 ^ 31 < 2" by (simp add: less_mult_imp_div_less)
    then have "unat w div 2 ^ 31 = 0 \<or> unat w div 2 ^ 31 = 1" by linarith
    then show ?thesis by (auto simp add: div_eq_0_iff) 
  qed
  finally show "sign (bits_float w) = (2 ^ 31 \<le> unat w)" by (simp add: bits_float_def)
  have d: "unat (drop_bit 23 w) = unat w div 2 ^ 23"
    by (subst unat_drop_bit_eq) (simp add: drop_bit_eq_div)
  show "unat (expo (bits_float w)) = unat w div 2 ^ 23 mod 256"
    unfolding bits_float_def float32.simps unsigned_ucast_eq take_bit_eq_mod d by simp
  show "unat (fraction (bits_float w)) = unat w mod 2 ^ 23"
    by (simp add: bits_float_def unsigned_ucast_eq take_bit_eq_mod)
qed

lemma unat_float_bits:
  "unat (float_bits f) = (if sign f then 2 ^ 31 else 0) + unat (expo f) * 2 ^ 23 + unat (fraction f)"
proof -
  define x where "x = unat (float_bits f)"
  define q where "q = x div 8388608"
  define r where "r = x mod 8388608"
  have x: "x < 4294967296" unfolding x_def using unsigned_less [of "float_bits f"] by simp
  have s: "sign f = (2147483648 \<le> x)" and e: "unat (expo f) = q mod 256"
    and m: "unat (fraction f) = r"
    using bits_float_fields [of "float_bits f"]
    by (simp_all add: bits_float_inverse x_def q_def r_def)
  have xq: "x = q * 8388608 + r" unfolding q_def r_def by (rule div_mult_mod_eq [symmetric])
  have r: "r < 8388608" by (simp add: r_def)
  have q: "q < 512" unfolding q_def using x by (simp add: less_mult_imp_div_less)
  show ?thesis
  proof (cases "q < 256")
    case True
    then have "q mod 256 = q" by simp
    moreover have "x < 2147483648" using True r xq by linarith
    ultimately show ?thesis
      unfolding x_def [symmetric] s e m using xq by simp
  next
    case False
    then have "q mod 256 = q - 256" using q by (simp add: mod_if)
    moreover have "2147483648 \<le> x" using False r xq by linarith
    ultimately show ?thesis
      unfolding x_def [symmetric] s e m using xq False by simp
  qed
qed

lemma signed_drop_bit_nonneg:
  fixes w :: "32 word"
  assumes "\<not> bit w 31"
  shows "signed_drop_bit 1 w = drop_bit 1 w"
  using assms by (intro bit_word_eqI) (auto simp add: bit_simps dest: bit_imp_le_length)

lemma pos_normal_expo: "pos_normal n \<Longrightarrow> 1 \<le> unat (expo n) \<and> unat (expo n) \<le> 254"
proof -
  assume "pos_normal n"
  then have "unat (expo n) \<noteq> 0" "unat (expo n) \<noteq> 255"
    by (simp_all add: pos_normal_def is_normal_def expo_zero_iff expo_max_iff)
  moreover have "unat (expo n) < 256" using unsigned_less [of "expo n"] by simp
  ultimately show ?thesis by linarith
qed

lemma fraction_less: "unat (fraction n) < 8388608"
  using unsigned_less [of "fraction n"] by simp

lemma expo_less: "unat (expo n) < 256"
  using unsigned_less [of "expo n"] by simp

lemma estimate_unat:
  assumes "\<not> sign n"
  shows "unat (magic - signed_drop_bit 1 (float_bits n))
    = 1597463007 - (unat (expo n) * 4194304 + unat (fraction n) div 2)"
proof -
  define w where "w = float_bits n"
  have x: "unat w = unat (expo n) * 8388608 + unat (fraction n)"
    using assms by (simp add: w_def unat_float_bits)
  have "\<not> bit w 31" using assms by (simp add: w_def float_bits_sign)
  then have sd: "signed_drop_bit 1 w = drop_bit 1 w" by (rule signed_drop_bit_nonneg)
  have "unat (expo n) * 8388608 = 2 * (unat (expo n) * 4194304)" by simp
  then have h: "unat w div 2 = unat (expo n) * 4194304 + unat (fraction n) div 2"
    unfolding x by (simp only: div_mult_self4)
  have d: "unat (drop_bit 1 w) = unat w div 2"
    by (subst unat_drop_bit_eq) (simp add: drop_bit_eq_div)
  have m: "unat magic = 1597463007" by (simp add: magic_def)
  have small: "unat (drop_bit 1 w) \<le> unat magic"
    unfolding d h m using expo_less [of n] fraction_less [of n] by linarith
  then have "drop_bit 1 w \<le> magic" by (simp add: word_le_nat_alt)
  then have "unat (magic - drop_bit 1 w) = unat magic - unat (drop_bit 1 w)"
    by (rule unat_sub)
  then show ?thesis
    unfolding w_def [symmetric] sd d h m .
qed

lemma div_mod_decomp:
  fixes a c r :: nat
  assumes "r < c"
  shows "(a * c + r) div c = a" "(a * c + r) mod c = r"
  using assms by simp_all

lemma estimate_fields:
  assumes "pos_normal n"
  defines "E \<equiv> unat (expo n)" and "F \<equiv> unat (fraction n)"
  shows "\<not> sign (estimate n)"
    "unat (expo (estimate n)) = est_expo E F"
    "8388608 + unat (fraction (estimate n)) = est_mant E F"
    "62 \<le> est_expo E F" "est_expo E F \<le> 190"
proof -
  define k where "k = E div 2"
  define G where "G = F div 2"
  define W where "W = unat (magic - signed_drop_bit 1 (float_bits n))"
  have s: "\<not> sign n" using assms(1) by (simp add: pos_normal_def)
  have E: "1 \<le> E" "E \<le> 254" using pos_normal_expo [OF assms(1)] by (simp_all add: E_def)
  have G: "G < 4194304" using fraction_less [of n] by (simp add: G_def F_def)
  have W: "W = 1597463007 - (E * 4194304 + G)"
    unfolding W_def estimate_unat [OF s] by (simp add: E_def F_def G_def)
  have k: "k \<le> 127" using E(2) by (simp add: k_def)
  have ex: "\<exists>e r. W = e * 8388608 + r \<and> r < 8388608 \<and> e = est_expo E F
      \<and> 8388608 + r = est_mant E F \<and> 62 \<le> e \<and> e \<le> 190"
  proof (cases "even E")
    case True
    then have Ek: "E = 2 * k" by (auto simp add: k_def)
    show ?thesis
    proof (cases "G \<le> 3627487")
      case True
      define e where "e = 190 - k"
      have e: "e + k = 190" using k by (simp add: e_def)
      have "W = e * 8388608 + (3627487 - G)"
        unfolding W Ek using e True by linarith
      moreover have "e = est_expo E F" "8388608 + (3627487 - G) = est_mant E F"
        using True \<open>even E\<close> by (simp_all add: est_expo_def est_mant_def e_def k_def G_def)
      ultimately show ?thesis using e k True E(1) Ek by (intro exI [of _ e] exI [of _ "3627487 - G"]) auto
    next
      case False
      define e where "e = 189 - k"
      have e: "e + k = 189" using k by (simp add: e_def)
      have "W = e * 8388608 + (12016095 - G)"
        unfolding W Ek using e False G by linarith
      moreover have "e = est_expo E F" "8388608 + (12016095 - G) = est_mant E F"
        using False G \<open>even E\<close> by (simp_all add: est_expo_def est_mant_def e_def k_def G_def)
      ultimately show ?thesis using e k False G
        by (intro exI [of _ e] exI [of _ "12016095 - G"]) auto
    qed
  next
    case False
    then have Ek: "E = 2 * k + 1" by (auto simp add: k_def elim: oddE)
    define e where "e = 189 - k"
    have e: "e + k = 189" using k by (simp add: e_def)
    have "(2 * k + 1) * 4194304 = k * 8388608 + 4194304" by simp
    then have "W = e * 8388608 + (7821791 - G)"
      unfolding W Ek using e G by linarith
    moreover have "e = est_expo E F" "8388608 + (7821791 - G) = est_mant E F"
      using False G by (simp_all add: est_expo_def est_mant_def e_def k_def G_def)
    ultimately show ?thesis using e k G
      by (intro exI [of _ e] exI [of _ "7821791 - G"]) auto
  qed
  then obtain e r where er: "W = e * 8388608 + r" "r < 8388608" "e = est_expo E F"
    "8388608 + r = est_mant E F" "62 \<le> e" "e \<le> 190" by blast
  have f: "sign (estimate n) = (2 ^ 31 \<le> W)"
    "unat (expo (estimate n)) = W div 2 ^ 23 mod 256"
    "unat (fraction (estimate n)) = W mod 2 ^ 23"
    unfolding estimate_def W_def by (rule bits_float_fields)+
  have dm: "W div 8388608 = e" "W mod 8388608 = r"
    unfolding er(1) using div_mod_decomp [OF er(2), of e] by simp_all
  have "W < 2 ^ 31" unfolding er(1) using er(2,6) by simp
  then show "\<not> sign (estimate n)" using f(1) by simp
  show "unat (expo (estimate n)) = est_expo E F"
    using f(2) dm(1) er(3,6) by simp
  show "8388608 + unat (fraction (estimate n)) = est_mant E F"
    using f(3) dm(2) er(4) by simp
  show "62 \<le> est_expo E F" "est_expo E F \<le> 190"
    using er(3,5,6) by simp_all
qed

section \<open>Two inequalities for a cubic\<close>

lemma cubic_amgm:
  fixes x w :: real
  assumes "0 \<le> x" "0 \<le> w"
  shows "27 * (x * w\<^sup>2) \<le> 4 * (x + w) ^ 3"
proof -
  have "4 * (x + w) ^ 3 - 27 * (x * w\<^sup>2) = (2 * x - w)\<^sup>2 * (x + 4 * w)"
    by (simp add: power2_eq_square power3_eq_cube algebra_simps)
  moreover have "0 \<le> (2 * x - w)\<^sup>2 * (x + 4 * w)"
    using assms by (intro mult_nonneg_nonneg) simp_all
  ultimately show ?thesis by linarith
qed

lemma cubic_chord:
  fixes a B t T1 T2 L :: real
  assumes t: "T1 \<le> t" "t \<le> T2" "T1 < T2" and r: "a + T1 + 2 * T2 \<le> 2 * B"
    and L: "L \<le> (a + T1) * (B - T1)\<^sup>2" "L \<le> (a + T2) * (B - T2)\<^sup>2"
  shows "L \<le> (a + t) * (B - t)\<^sup>2"
proof -
  have id: "(T2 - T1) * ((a + t) * (B - t)\<^sup>2)
      = (T2 - t) * ((a + T1) * (B - T1)\<^sup>2) + (t - T1) * ((a + T2) * (B - T2)\<^sup>2)
        + (T2 - T1) * ((t - T1) * ((T2 - t) * (2 * B - a - T1 - T2 - t)))"
    by (simp add: power2_eq_square algebra_simps)
  have "0 \<le> (T2 - T1) * ((t - T1) * ((T2 - t) * (2 * B - a - T1 - T2 - t)))"
    using t r by (intro mult_nonneg_nonneg) simp_all
  moreover have "(T2 - t) * L \<le> (T2 - t) * ((a + T1) * (B - T1)\<^sup>2)"
    using t L(1) by (intro mult_left_mono) simp_all
  moreover have "(t - T1) * L \<le> (t - T1) * ((a + T2) * (B - T2)\<^sup>2)"
    using t L(2) by (intro mult_left_mono) simp_all
  ultimately have "(T2 - t) * L + (t - T1) * L \<le> (T2 - T1) * ((a + t) * (B - t)\<^sup>2)"
    unfolding id by linarith
  then have "(T2 - T1) * L \<le> (T2 - T1) * ((a + t) * (B - t)\<^sup>2)"
    by (simp add: algebra_simps)
  then show ?thesis using t(3) by simp
qed

lemma est_case_bounds:
  fixes F G A T1 T2 :: nat and L U :: real
  assumes G: "2 * G \<le> F" "F \<le> 2 * G + 1"
    and T: "T1 \<le> F" "F \<le> T2" "T1 < T2" "T2 \<le> 2 * A"
    and r: "8388608 + T1 + 2 * T2 \<le> 4 * A"
    and L1: "4 * L \<le> (8388608 + real T1) * (2 * real A - real T1)\<^sup>2"
    and L2: "4 * L \<le> (8388608 + real T2) * (2 * real A - real T2)\<^sup>2"
    and U: "4 * (8388608 + 2 * real A + 1) ^ 3 \<le> 27 * (4 * U)"
  shows "L \<le> real (8388608 + F) * (real (A - G))\<^sup>2"
    "real (8388608 + F) * (real (A - G))\<^sup>2 \<le> U"
proof -
  define x where "x = 8388608 + real F"
  define w where "w = 2 * real A - 2 * real G"
  have GA: "G \<le> A" using G(1) T(2,4) by linarith
  have y: "real (A - G) = w / 2" using GA by (simp add: w_def of_nat_diff)
  have x0: "0 \<le> x" by (simp add: x_def)
  have w0: "0 \<le> w" using GA by (simp add: w_def)
  have xy: "real (8388608 + F) * (real (A - G))\<^sup>2 = x * w\<^sup>2 / 4"
    unfolding y by (simp add: x_def power2_eq_square)
  have bf: "0 \<le> 2 * real A - real F" "2 * real A - real F \<le> w"
    using T(2,4) G(1) by (simp_all add: w_def)
  have "4 * L \<le> (8388608 + real F) * (2 * real A - real F)\<^sup>2"
    using T r by (intro cubic_chord [OF _ _ _ _ L1 L2]) simp_all
  also have "\<dots> \<le> x * w\<^sup>2"
    unfolding x_def using bf by (intro mult_left_mono power_mono) simp_all
  finally show "L \<le> real (8388608 + F) * (real (A - G))\<^sup>2"
    unfolding xy by simp
  have "x + w \<le> 8388608 + 2 * real A + 1"
    using G(2) by (simp add: x_def w_def)
  then have "(x + w) ^ 3 \<le> (8388608 + 2 * real A + 1) ^ 3"
    using x0 w0 by (intro power_mono) simp_all
  with cubic_amgm [OF x0 w0] U have "27 * (x * w\<^sup>2) \<le> 27 * (4 * U)" by linarith
  then show "real (8388608 + F) * (real (A - G))\<^sup>2 \<le> U"
    unfolding xy by simp
qed

lemma est_cubic_bounds:
  assumes F: "F < 8388608"
  shows "932 / 1000 * 2 ^ est_scale E F \<le> real (8388608 + F) * (real (est_mant E F))\<^sup>2"
    "real (8388608 + F) * (real (est_mant E F))\<^sup>2 \<le> 1070 / 1000 * 2 ^ est_scale E F"
proof -
  define G where "G = F div 2"
  have G: "2 * G \<le> F" "F \<le> 2 * G + 1" by (simp_all add: G_def)
  have "932 / 1000 * 2 ^ est_scale E F \<le> real (8388608 + F) * (real (est_mant E F))\<^sup>2
    \<and> real (8388608 + F) * (real (est_mant E F))\<^sup>2 \<le> 1070 / 1000 * 2 ^ est_scale E F"
  proof (cases "even E")
    case True
    show ?thesis
    proof (cases "G \<le> 3627487")
      case A: True
      have sc: "est_scale E F = 70" and m: "est_mant E F = 12016095 - G"
        using True A by (simp_all add: est_scale_def est_mant_def G_def)
      have T: "0 \<le> F" "F \<le> 7254975" using A G(2) by simp_all
      show ?thesis
        unfolding sc m
        using est_case_bounds [OF G T, of 12016095 "932 / 1000 * 2 ^ 70" "1070 / 1000 * 2 ^ 70"]
        by simp
    next
      case B: False
      have sc: "est_scale E F = 72" and m: "est_mant E F = 20404703 - G"
        using True B by (simp_all add: est_scale_def est_mant_def G_def)
      have T: "7254976 \<le> F" "F \<le> 8388607" using B G(1) F by simp_all
      show ?thesis
        unfolding sc m
        using est_case_bounds [OF G T, of 20404703 "932 / 1000 * 2 ^ 72" "1070 / 1000 * 2 ^ 72"]
        by simp
    qed
  next
    case C: False
    have sc: "est_scale E F = 71" and m: "est_mant E F = 16210399 - G"
      using C by (simp_all add: est_scale_def est_mant_def G_def)
    have T: "0 \<le> F" "F \<le> 8388607" using F by simp_all
    show ?thesis
      unfolding sc m
      using est_case_bounds [OF G T, of 16210399 "932 / 1000 * 2 ^ 71" "1070 / 1000 * 2 ^ 71"]
      by simp
  qed
  then show "932 / 1000 * 2 ^ est_scale E F \<le> real (8388608 + F) * (real (est_mant E F))\<^sup>2"
    "real (8388608 + F) * (real (est_mant E F))\<^sup>2 \<le> 1070 / 1000 * 2 ^ est_scale E F"
    by simp_all
qed

section \<open>The values of the input and of the estimate\<close>

lemma two_powi_add: "(2::real) powi (a + b) = 2 powi a * 2 powi b"
  by (simp add: power_int_add)

lemma valof_pos_normal:
  assumes "pos_normal n"
  shows "valof n = real (8388608 + unat (fraction n)) * 2 powi (int (unat (expo n)) - 150)"
  using assms pos_normal_expo [OF assms]
  by (simp add: valof_def mant_unat expn_unat pos_normal_def)

lemma valof_estimate:
  assumes "pos_normal n"
  shows "valof (estimate n) = real (est_mant (unat (expo n)) (unat (fraction n)))
    * 2 powi (int (est_expo (unat (expo n)) (unat (fraction n))) - 150)"
proof -
  note f = estimate_fields [OF assms]
  have "unat (expo (estimate n)) \<noteq> 0" using f(2,4) by simp
  then show ?thesis
    unfolding valof_def mant_unat expn_unat using f(1) f(2) f(3) by simp
qed

lemma est_exponent_sum:
  assumes "1 \<le> E" "E \<le> 254"
  shows "int E + 2 * int (est_expo E F) = 450 - int (est_scale E F)"
proof (cases "even E")
  case True
  then obtain k where k: "E = 2 * k" by (auto elim: evenE)
  then have "k \<le> 127" using assms by simp
  then show ?thesis using True by (simp add: est_expo_def est_scale_def k)
next
  case False
  then obtain k where k: "E = 2 * k + 1" by (auto elim: oddE)
  then have "k \<le> 126" using assms by simp
  then show ?thesis using False by (simp add: est_expo_def est_scale_def k)
qed

lemma estimate_residual:
  assumes "pos_normal n"
  shows "valof n * (valof (estimate n))\<^sup>2
    = real (8388608 + unat (fraction n))
      * (real (est_mant (unat (expo n)) (unat (fraction n))))\<^sup>2
      / 2 ^ est_scale (unat (expo n)) (unat (fraction n))"
proof -
  let ?E = "unat (expo n)" and ?F = "unat (fraction n)"
  have E: "1 \<le> ?E" "?E \<le> 254" using pos_normal_expo [OF assms] by simp_all
  have s: "(int ?E - 150) + ((int (est_expo ?E ?F) - 150) + (int (est_expo ?E ?F) - 150))
      = - int (est_scale ?E ?F)"
    using est_exponent_sum [OF E, of ?F] by (simp add: algebra_simps)
  have "(2::real) powi (int ?E - 150) * (2 powi (int (est_expo ?E ?F) - 150))\<^sup>2
      = 2 powi ((int ?E - 150)
          + ((int (est_expo ?E ?F) - 150) + (int (est_expo ?E ?F) - 150)))"
    unfolding two_powi_add power2_eq_square ..
  also have "\<dots> = 1 / 2 ^ est_scale ?E ?F"
    unfolding s by (simp add: power_int_minus_divide)
  finally have p: "(2::real) powi (int ?E - 150) * (2 powi (int (est_expo ?E ?F) - 150))\<^sup>2
      = 1 / 2 ^ est_scale ?E ?F" .
  have "valof n * (valof (estimate n))\<^sup>2
      = real (8388608 + ?F) * (real (est_mant ?E ?F))\<^sup>2
        * (2 powi (int ?E - 150) * (2 powi (int (est_expo ?E ?F) - 150))\<^sup>2)"
    unfolding valof_pos_normal [OF assms] valof_estimate [OF assms]
    by (simp add: power_mult_distrib)
  also have "\<dots> = real (8388608 + ?F) * (real (est_mant ?E ?F))\<^sup>2
      * (1 / 2 ^ est_scale ?E ?F)"
    by (simp only: p)
  finally show ?thesis by simp
qed

lemma estimate_residual_bounds:
  assumes "pos_normal n"
  shows "932 / 1000 \<le> valof n * (valof (estimate n))\<^sup>2"
    "valof n * (valof (estimate n))\<^sup>2 \<le> 1070 / 1000"
proof -
  note b = est_cubic_bounds [OF fraction_less [of n], of "unat (expo n)"]
  show "932 / 1000 \<le> valof n * (valof (estimate n))\<^sup>2"
    unfolding estimate_residual [OF assms] using b(1) by (simp add: pos_le_divide_eq)
  show "valof n * (valof (estimate n))\<^sup>2 \<le> 1070 / 1000"
    unfolding estimate_residual [OF assms] using b(2) by (simp add: pos_divide_le_eq)
qed

lemma valof_pos_normal_range:
  assumes "pos_normal n"
  shows "2 powi (- 126) \<le> valof n" "valof n < 2 powi 128"
proof -
  define E where "E = unat (expo n)"
  define F where "F = unat (fraction n)"
  have E: "1 \<le> E" "E \<le> 254" using pos_normal_expo [OF assms] by (simp_all add: E_def)
  have F: "F < 8388608" using fraction_less [of n] by (simp add: F_def)
  have v: "valof n = real (8388608 + F) * 2 powi (int E - 150)"
    using valof_pos_normal [OF assms] by (simp add: E_def F_def)
  have "(2::real) powi (- 126) = 2 ^ 23 * 2 powi (- 149)"
    by (simp add: power_int_minus_divide)
  also have "\<dots> \<le> real (8388608 + F) * 2 powi (int E - 150)"
    using E by (intro mult_mono power_int_increasing) simp_all
  finally show "2 powi (- 126) \<le> valof n" unfolding v .
  have "real (8388608 + F) * 2 powi (int E - 150) < 2 ^ 24 * 2 powi (int E - 150)"
    using F by (intro mult_strict_right_mono) simp_all
  also have "\<dots> \<le> 2 ^ 24 * 2 powi 104"
    using E by (intro mult_left_mono power_int_increasing) simp_all
  also have "\<dots> = 2 powi 128" by simp
  finally show "valof n < 2 powi 128" unfolding v .
qed

lemma valof_estimate_range:
  assumes "pos_normal n"
  shows "2 powi (- 65) \<le> valof (estimate n)" "valof (estimate n) < 2 powi 64"
    "is_finite (estimate n)"
proof -
  define e where "e = est_expo (unat (expo n)) (unat (fraction n))"
  define m where "m = est_mant (unat (expo n)) (unat (fraction n))"
  note f = estimate_fields [OF assms, folded e_def m_def]
  have m: "8388608 \<le> m" "m < 16777216"
    using f(3) fraction_less [of "estimate n"] by linarith+
  have v: "valof (estimate n) = real m * 2 powi (int e - 150)"
    using valof_estimate [OF assms] by (simp add: e_def m_def)
  have "(2::real) powi (- 65) = 2 ^ 23 * 2 powi (- 88)"
    by (simp add: power_int_minus_divide)
  also have "\<dots> \<le> real m * 2 powi (int e - 150)"
    using m(1) f(4) by (intro mult_mono power_int_increasing) simp_all
  finally show "2 powi (- 65) \<le> valof (estimate n)" unfolding v .
  have "real m * 2 powi (int e - 150) < 2 ^ 24 * 2 powi (int e - 150)"
    using m(2) by (intro mult_strict_right_mono) simp_all
  also have "\<dots> \<le> 2 ^ 24 * 2 powi 40"
    using f(5) by (intro mult_left_mono power_int_increasing) simp_all
  also have "\<dots> = 2 powi 64" by simp
  finally show "valof (estimate n) < 2 powi 64" unfolding v .
  show "is_finite (estimate n)"
    using f(2,5) by (simp add: is_finite_def expo_max_iff e_def)
qed

section \<open>The Newton step, operation by operation\<close>

lemma fmul_normal:
  assumes fin: "is_finite a" "is_finite b"
    and lo: "2 powi (- 126) \<le> \<bar>valof a * valof b\<bar>"
    and hi: "\<bar>valof a * valof b\<bar> < 2 powi 127"
  shows "is_finite (fmul a b)"
    "\<bar>valof (fmul a b) - valof a * valof b\<bar> \<le> \<bar>valof a * valof b\<bar> / 2 ^ 24"
proof -
  have "(0::real) < 2 powi (- 126)" by simp
  with lo have nz: "valof a * valof b \<noteq> 0" by linarith
  note r = fmul_valof [OF fin nz hi]
  show "is_finite (fmul a b)" by (rule r(1))
  have "(2::real) powi (- 150) = 2 powi (- 126) / 2 ^ 24"
    by (simp add: power_int_minus_divide)
  also have "\<dots> \<le> \<bar>valof a * valof b\<bar> / 2 ^ 24"
    using lo by (intro divide_right_mono) simp_all
  finally have "max (\<bar>valof a * valof b\<bar> / 2 ^ 24) (2 powi (- 150))
      = \<bar>valof a * valof b\<bar> / 2 ^ 24" by simp
  with r(2) show "\<bar>valof (fmul a b) - valof a * valof b\<bar>
      \<le> \<bar>valof a * valof b\<bar> / 2 ^ 24" by simp
qed

lemma fsub_normal:
  assumes fin: "is_finite a" "is_finite b"
    and lo: "2 powi (- 126) \<le> \<bar>valof a - valof b\<bar>"
    and hi: "\<bar>valof a - valof b\<bar> < 2 powi 127"
  shows "is_finite (fsub a b)"
    "\<bar>valof (fsub a b) - (valof a - valof b)\<bar> \<le> \<bar>valof a - valof b\<bar> / 2 ^ 24"
proof -
  have "(0::real) < 2 powi (- 126)" by simp
  with lo have nz: "valof a - valof b \<noteq> 0" by linarith
  note r = fsub_valof [OF fin nz hi]
  show "is_finite (fsub a b)" by (rule r(1))
  have "(2::real) powi (- 150) = 2 powi (- 126) / 2 ^ 24"
    by (simp add: power_int_minus_divide)
  also have "\<dots> \<le> \<bar>valof a - valof b\<bar> / 2 ^ 24"
    using lo by (intro divide_right_mono) simp_all
  finally have "max (\<bar>valof a - valof b\<bar> / 2 ^ 24) (2 powi (- 150))
      = \<bar>valof a - valof b\<bar> / 2 ^ 24" by simp
  with r(2) show "\<bar>valof (fsub a b) - (valof a - valof b)\<bar>
      \<le> \<bar>valof a - valof b\<bar> / 2 ^ 24" by simp
qed

lemma float_half_props: "is_finite float_half" "valof float_half = 1 / 2"
  by (simp_all add: float_half_def is_finite_def valof_def mant_def expn_def mk_float_def)

lemma threehalfs_props: "is_finite threehalfs" "valof threehalfs = 3 / 2"
  by (simp_all add: threehalfs_def is_finite_def valof_def mant_def expn_def mk_float_def)

lemma pos_normal_finite: "pos_normal n \<Longrightarrow> is_finite n"
  by (simp add: pos_normal_def is_normal_def is_finite_def)

lemma halving_step:
  assumes "pos_normal n"
  shows "is_finite (fmul n float_half)"
    "\<bar>valof (fmul n float_half) - valof n / 2\<bar> \<le> valof n / 2 / 2 ^ 23"
proof -
  note N = valof_pos_normal_range [OF assms]
  have pos: "0 < valof n" using N(1) by (rule pos_of_powi_le)
  have v: "valof n * valof float_half = valof n / 2" by (simp add: float_half_props)
  have nz: "valof n * valof float_half \<noteq> 0" unfolding v using pos by simp
  have "valof n / 2 < 2 powi 128 / 2" using N(2) by simp
  also have "\<dots> = (2::real) powi 127" by simp
  finally have hi: "\<bar>valof n * valof float_half\<bar> < 2 powi 127"
    unfolding v using pos by simp
  note r = fmul_valof [OF pos_normal_finite [OF assms] float_half_props(1) nz hi]
  show "is_finite (fmul n float_half)" by (rule r(1))
  have "(2::real) powi (- 150) = 2 powi (- 126) / 2 / 2 ^ 23"
    by (simp add: power_int_minus_divide)
  also have "\<dots> \<le> valof n / 2 / 2 ^ 23"
    using N(1) by (intro divide_right_mono) simp_all
  finally have a: "2 powi (- 150) \<le> valof n / 2 / 2 ^ 23" .
  have b: "\<bar>valof n * valof float_half\<bar> / 2 ^ 24 \<le> valof n / 2 / 2 ^ 23"
    unfolding v using pos by simp
  from r(2) a b show "\<bar>valof (fmul n float_half) - valof n / 2\<bar> \<le> valof n / 2 / 2 ^ 23"
    unfolding v by linarith
qed

lemma inv_sqrt_steps: "inv_sqrt n = fmul (estimate n) (step_c n)"
  by (simp add: inv_sqrt_def inv_sqrt_body_y Let_def estimate_def step_c_def step_u_def
        step_a_def)

lemma scaled_lower:
  fixes v Y p lo :: real
  assumes "v * Y = p" "0 < Y" "lo * Y \<le> p"
  shows "lo \<le> v"
  using assms by (metis mult_le_cancel_right_pos)

lemma scaled_upper:
  fixes v Y p hi :: real
  assumes "v * Y = p" "0 < Y" "p \<le> hi * Y"
  shows "v \<le> hi"
  using assms by (metis mult_le_cancel_right_pos)

lemma step_a_bounds:
  assumes "pos_normal n"
  shows "is_finite (step_a n)"
    "2 powi (- 66) \<le> valof (fmul n float_half) * valof (estimate n)"
    "valof (fmul n float_half) * valof (estimate n) \<le> 2 powi 65"
    "\<bar>valof (fmul n float_half) * (valof (estimate n))\<^sup>2
        - valof n * (valof (estimate n))\<^sup>2 / 2\<bar>
      \<le> valof n * (valof (estimate n))\<^sup>2 / 2 / 2 ^ 23"
    "\<bar>valof (step_a n) * valof (estimate n)
        - valof (fmul n float_half) * (valof (estimate n))\<^sup>2\<bar>
      \<le> valof (fmul n float_half) * (valof (estimate n))\<^sup>2 / 2 ^ 24"
proof -
  define N where "N = valof n"
  define Y where "Y = valof (estimate n)"
  define X where "X = valof (fmul n float_half)"
  define z where "z = N * Y\<^sup>2"
  define p1 where "p1 = X * Y\<^sup>2"
  note Yr = valof_estimate_range [OF assms, folded Y_def]
  note zr = estimate_residual_bounds [OF assms, folded N_def Y_def, folded z_def]
  note h = halving_step [OF assms, folded N_def X_def]
  have Ypos: "0 < Y" using Yr(1) by (rule pos_of_powi_le)
  have Y2: "0 < Y\<^sup>2" using Ypos by simp
  have "p1 - z / 2 = (X - N / 2) * Y\<^sup>2"
    by (simp add: p1_def z_def algebra_simps)
  then have "\<bar>p1 - z / 2\<bar> = \<bar>X - N / 2\<bar> * Y\<^sup>2"
    by (simp add: abs_mult)
  also have "\<dots> \<le> N / 2 / 2 ^ 23 * Y\<^sup>2"
    using h(2) Y2 by (intro mult_right_mono) simp_all
  also have "\<dots> = z / 2 / 2 ^ 23" by (simp add: z_def)
  finally have p1: "\<bar>p1 - z / 2\<bar> \<le> z / 2 / 2 ^ 23" .
  then show "\<bar>valof (fmul n float_half) * (valof (estimate n))\<^sup>2
        - valof n * (valof (estimate n))\<^sup>2 / 2\<bar>
      \<le> valof n * (valof (estimate n))\<^sup>2 / 2 / 2 ^ 23"
    by (simp add: p1_def z_def N_def Y_def X_def)
  have p1n: "\<bar>p1 - z / 2\<bar> \<le> z / 16777216" using p1 by simp
  have p1r: "1 / 4 \<le> p1" "p1 \<le> 1" using p1n zr by linarith+
  have vy: "X * Y * Y = p1" by (simp add: p1_def power2_eq_square)
  have "2 powi (- 66) * Y \<le> 2 powi (- 66) * 2 powi 64"
    using Yr(2) by (intro mult_left_mono) simp_all
  also have "\<dots> = (1 / 4 :: real)" by (simp add: power_int_minus_divide)
  finally have lo: "2 powi (- 66) \<le> X * Y"
    using p1r(1) by (intro scaled_lower [OF vy Ypos]) linarith
  have "(1::real) = 2 powi 65 * 2 powi (- 65)" by (simp add: power_int_minus_divide)
  also have "\<dots> \<le> 2 powi 65 * Y"
    using Yr(1) by (intro mult_left_mono) simp_all
  finally have hi: "X * Y \<le> 2 powi 65"
    using p1r(2) by (intro scaled_upper [OF vy Ypos]) linarith
  show "2 powi (- 66) \<le> valof (fmul n float_half) * valof (estimate n)"
    "valof (fmul n float_half) * valof (estimate n) \<le> 2 powi 65"
    using lo hi by (simp_all add: X_def Y_def)
  have xpos: "0 < X * Y" using lo by (rule pos_of_powi_le)
  have nlo: "2 powi (- 126) \<le> \<bar>X * Y\<bar>"
  proof -
    have "(2::real) powi (- 126) \<le> 2 powi (- 66)" by (simp add: two_powi_le_iff)
    then show ?thesis using lo xpos by linarith
  qed
  have nhi: "\<bar>X * Y\<bar> < 2 powi 127"
  proof -
    have "(2::real) powi 65 < 2 powi 127" by (simp add: two_powi_less_iff)
    then show ?thesis using hi xpos by linarith
  qed
  note m = fmul_normal [OF h(1) Yr(3), unfolded X_def [symmetric] Y_def [symmetric],
      OF nlo nhi, folded step_a_def]
  show "is_finite (step_a n)" by (rule m(1))
  have "valof (step_a n) * Y - p1 = (valof (step_a n) - X * Y) * Y"
    by (simp add: p1_def power2_eq_square algebra_simps)
  then have "\<bar>valof (step_a n) * Y - p1\<bar> = \<bar>valof (step_a n) - X * Y\<bar> * Y"
    using Ypos by (simp add: abs_mult)
  also have "\<dots> \<le> \<bar>X * Y\<bar> / 2 ^ 24 * Y"
    using m(2) Ypos by (intro mult_right_mono) simp_all
  also have "\<dots> = p1 / 2 ^ 24"
    using xpos by (simp add: p1_def power2_eq_square)
  finally show "\<bar>valof (step_a n) * valof (estimate n)
        - valof (fmul n float_half) * (valof (estimate n))\<^sup>2\<bar>
      \<le> valof (fmul n float_half) * (valof (estimate n))\<^sup>2 / 2 ^ 24"
    by (simp add: p1_def X_def Y_def)
qed

lemma step_u_bounds:
  assumes "pos_normal n"
  shows "is_finite (step_u n)"
    "\<bar>valof (step_u n) - valof n * (valof (estimate n))\<^sup>2 / 2\<bar> \<le> 2 / 10 ^ 7"
    "1 / 4 \<le> valof (step_a n) * valof (estimate n)"
    "valof (step_a n) * valof (estimate n) \<le> 1"
proof -
  define Y where "Y = valof (estimate n)"
  define z where "z = valof n * Y\<^sup>2"
  define p1 where "p1 = valof (fmul n float_half) * Y\<^sup>2"
  define p2 where "p2 = valof (step_a n) * Y"
  note Yr = valof_estimate_range [OF assms, folded Y_def]
  note zr = estimate_residual_bounds [OF assms, folded Y_def, folded z_def]
  note a = step_a_bounds [OF assms, folded Y_def, folded z_def p1_def, folded p2_def]
  have e1: "\<bar>p1 - z / 2\<bar> \<le> z / 16777216" using a(4) by simp
  have e2: "\<bar>p2 - p1\<bar> \<le> p1 / 16777216" using a(5) by simp
  have p2r: "1 / 4 \<le> p2" "p2 \<le> 1" using e1 e2 zr by linarith+
  then show "1 / 4 \<le> valof (step_a n) * valof (estimate n)"
    "valof (step_a n) * valof (estimate n) \<le> 1"
    by (simp_all add: p2_def Y_def)
  have nlo: "2 powi (- 126) \<le> \<bar>valof (step_a n) * Y\<bar>"
  proof -
    have "(2::real) powi (- 126) \<le> 1 / 4" by (simp add: power_int_minus_divide)
    then show ?thesis using p2r(1) by (simp add: p2_def)
  qed
  have nhi: "\<bar>valof (step_a n) * Y\<bar> < 2 powi 127"
  proof -
    have "(1::real) < 2 powi 127" by simp
    then show ?thesis using p2r by (simp add: p2_def)
  qed
  note m = fmul_normal [OF a(1) Yr(3), unfolded Y_def [symmetric], OF nlo nhi,
      folded step_u_def p2_def]
  show "is_finite (step_u n)" by (rule m(1))
  have e3: "\<bar>valof (step_u n) - p2\<bar> \<le> p2 / 16777216"
    using m(2) p2r(1) by simp
  have l1: "p1 \<le> z / 2 + z / 16777216" "z / 2 - z / 16777216 \<le> p1"
    using e1 by linarith+
  have l2: "p2 \<le> p1 + p1 / 16777216" "p1 - p1 / 16777216 \<le> p2"
    using e2 by linarith+
  have l3: "valof (step_u n) \<le> p2 + p2 / 16777216" "p2 - p2 / 16777216 \<le> valof (step_u n)"
    using e3 by linarith+
  have "valof (step_u n) - z / 2 \<le> 2 / 10000000" "- (2 / 10000000) \<le> valof (step_u n) - z / 2"
    using l1 l2 l3 zr by argo+
  then have "\<bar>valof (step_u n) - z / 2\<bar> \<le> 2 / 10000000"
    by argo
  then have "\<bar>valof (step_u n) - z / 2\<bar> \<le> 2 / 10 ^ 7"
    by simp
  then show "\<bar>valof (step_u n) - valof n * (valof (estimate n))\<^sup>2 / 2\<bar> \<le> 2 / 10 ^ 7"
    by (simp add: z_def Y_def)
qed

lemma step_c_bounds:
  assumes "pos_normal n"
  shows "is_finite (step_c n)"
    "\<bar>valof (step_c n) - (3 / 2 - valof n * (valof (estimate n))\<^sup>2 / 2)\<bar> \<le> 3 / 10 ^ 7"
    "96 / 100 \<le> valof (step_c n)" "valof (step_c n) \<le> 104 / 100"
proof -
  define z where "z = valof n * (valof (estimate n))\<^sup>2"
  define U where "U = valof (step_u n)"
  note zr = estimate_residual_bounds [OF assms, folded z_def]
  note u = step_u_bounds [OF assms, folded z_def U_def]
  have u2: "\<bar>U - z / 2\<bar> \<le> 2 / 10000000" using u(2) by simp
  have d: "valof threehalfs - valof (step_u n) = 3 / 2 - U"
    by (simp add: threehalfs_props U_def)
  have dr: "96 / 100 \<le> 3 / 2 - U" "3 / 2 - U \<le> 104 / 100" using u2 zr by linarith+
  have nlo: "2 powi (- 126) \<le> \<bar>valof threehalfs - valof (step_u n)\<bar>"
  proof -
    have "(2::real) powi (- 126) \<le> 96 / 100" by (simp add: power_int_minus_divide)
    then show ?thesis unfolding d using dr(1) by linarith
  qed
  have nhi: "\<bar>valof threehalfs - valof (step_u n)\<bar> < 2 powi 127"
  proof -
    have "(104 / 100 :: real) < 2 powi 127" by simp
    then show ?thesis unfolding d using dr by linarith
  qed
  note m = fsub_normal [OF threehalfs_props(1) u(1) nlo nhi, folded step_c_def, unfolded d]
  show "is_finite (step_c n)" by (rule m(1))
  have e4: "\<bar>valof (step_c n) - (3 / 2 - U)\<bar> \<le> (3 / 2 - U) / 16777216"
    using m(2) dr(1) by simp
  have l4: "valof (step_c n) \<le> (3 / 2 - U) + (3 / 2 - U) / 16777216"
    "(3 / 2 - U) - (3 / 2 - U) / 16777216 \<le> valof (step_c n)"
    using e4 by linarith+
  have l5: "U \<le> z / 2 + 2 / 10000000" "z / 2 - 2 / 10000000 \<le> U"
    using u2 by linarith+
  have "valof (step_c n) - (3 / 2 - z / 2) \<le> 3 / 10000000"
    "- (3 / 10000000) \<le> valof (step_c n) - (3 / 2 - z / 2)"
    using l4 l5 dr by argo+
  then have "\<bar>valof (step_c n) - (3 / 2 - z / 2)\<bar> \<le> 3 / 10000000"
    by argo
  then have "\<bar>valof (step_c n) - (3 / 2 - z / 2)\<bar> \<le> 3 / 10 ^ 7"
    by simp
  then show "\<bar>valof (step_c n) - (3 / 2 - valof n * (valof (estimate n))\<^sup>2 / 2)\<bar>
      \<le> 3 / 10 ^ 7"
    by (simp add: z_def)
  show "96 / 100 \<le> valof (step_c n)" "valof (step_c n) \<le> 104 / 100"
    using l4 l5 zr by argo+
qed

section \<open>The accuracy of the result\<close>

lemma newton_gain:
  fixes z :: real
  assumes "932 / 1000 \<le> z" "z \<le> 1070 / 1000"
  shows "z * (3 / 2 - z / 2)\<^sup>2 \<le> 1" "1 - 376 / 100000 \<le> z * (3 / 2 - z / 2)\<^sup>2"
proof -
  have id: "1 - z * (3 / 2 - z / 2)\<^sup>2 = (1 - z)\<^sup>2 * (4 - z) / 4"
    by (simp add: power2_eq_square algebra_simps)
  have "0 \<le> (1 - z)\<^sup>2 * (4 - z) / 4"
    using assms by (intro divide_nonneg_nonneg mult_nonneg_nonneg) simp_all
  then show "z * (3 / 2 - z / 2)\<^sup>2 \<le> 1" using id by linarith
  have "\<bar>1 - z\<bar> \<le> 7 / 100" using assms by linarith
  then have "\<bar>1 - z\<bar> * \<bar>1 - z\<bar> \<le> 7 / 100 * (7 / 100)"
    by (intro mult_mono) simp_all
  then have sq: "(1 - z)\<^sup>2 \<le> 49 / 10000"
    by (simp add: power2_eq_square flip: abs_mult)
  have "(1 - z)\<^sup>2 * (4 - z) \<le> 49 / 10000 * (3068 / 1000)"
    using sq assms by (intro mult_mono) simp_all
  then show "1 - 376 / 100000 \<le> z * (3 / 2 - z / 2)\<^sup>2" using id by linarith
qed

lemma inv_sqrt_bounds:
  assumes "pos_normal n"
  shows "is_finite (inv_sqrt n)" "0 < valof (inv_sqrt n)"
    "\<bar>(valof (inv_sqrt n))\<^sup>2 * valof n - 1\<bar> \<le> 4 / 1000"
    "2 powi (- 66) \<le> valof (estimate n) * valof (step_c n)"
    "valof (estimate n) * valof (step_c n) \<le> 2 powi 65"
    "2 powi (- 67) \<le> valof (inv_sqrt n)" "valof (inv_sqrt n) \<le> 2 powi 66"
proof -
  define N where "N = valof n"
  define Y where "Y = valof (estimate n)"
  define C where "C = valof (step_c n)"
  define R where "R = valof (inv_sqrt n)"
  define z where "z = N * Y\<^sup>2"
  define b where "b = 3 / 2 - z / 2"
  define \<rho> where "\<rho> = R / Y"
  note Yr = valof_estimate_range [OF assms, folded Y_def]
  note zr = estimate_residual_bounds [OF assms, folded N_def Y_def, folded z_def]
  note c = step_c_bounds [OF assms, folded N_def Y_def C_def, folded z_def, folded b_def]
  have Ypos: "0 < Y" using Yr(1) by (rule pos_of_powi_le)
  have "(2::real) powi (- 66) = 2 powi (- 65) * (1 / 2)"
    by (simp add: power_int_minus_divide)
  also have "\<dots> \<le> Y * C"
    using Yr(1) c(3) by (intro mult_mono) simp_all
  finally have lo: "2 powi (- 66) \<le> Y * C" .
  have "Y * C \<le> 2 powi 64 * 2"
    using Yr(2) c(3,4) Ypos by (intro mult_mono) simp_all
  also have "\<dots> = (2::real) powi 65" by simp
  finally have hi: "Y * C \<le> 2 powi 65" .
  show "2 powi (- 66) \<le> valof (estimate n) * valof (step_c n)"
    "valof (estimate n) * valof (step_c n) \<le> 2 powi 65"
    using lo hi by (simp_all add: Y_def C_def)
  have ycpos: "0 < Y * C" using lo by (rule pos_of_powi_le)
  have nlo: "2 powi (- 126) \<le> \<bar>Y * C\<bar>"
  proof -
    have "(2::real) powi (- 126) \<le> 2 powi (- 66)" by (simp add: two_powi_le_iff)
    then show ?thesis using lo ycpos by linarith
  qed
  have nhi: "\<bar>Y * C\<bar> < 2 powi 127"
  proof -
    have "(2::real) powi 65 < 2 powi 127" by (simp add: two_powi_less_iff)
    then show ?thesis using hi ycpos by linarith
  qed
  note m = fmul_normal [OF Yr(3) c(1), unfolded Y_def [symmetric] C_def [symmetric],
      OF nlo nhi, folded inv_sqrt_steps, folded R_def]
  show "is_finite (inv_sqrt n)" by (rule m(1))
  define V where "V = Y * C"
  have rr: "\<bar>R - V\<bar> \<le> V / 16777216" "0 < V"
    using m(2) ycpos by (simp_all add: V_def)
  have "2 powi (- 67) = (2::real) powi (- 66) / 2" by (simp add: power_int_minus_divide)
  also have "\<dots> \<le> V / 2" using lo unfolding V_def by linarith
  also have "\<dots> \<le> R" using rr by argo
  finally show "2 powi (- 67) \<le> valof (inv_sqrt n)" by (simp add: R_def)
  have "R \<le> 2 * V" using rr by argo
  also have "\<dots> \<le> 2 * 2 powi 65" using hi unfolding V_def by linarith
  also have "\<dots> = (2::real) powi 66" by simp
  finally show "valof (inv_sqrt n) \<le> 2 powi 66" by (simp add: R_def)
  have R: "R = \<rho> * Y" using Ypos by (simp add: \<rho>_def)
  have "R - Y * C = (\<rho> - C) * Y" by (simp add: R algebra_simps)
  then have "\<bar>\<rho> - C\<bar> * Y = \<bar>R - Y * C\<bar>" using Ypos by (simp add: abs_mult)
  also have "\<dots> \<le> Y * C / 2 ^ 24" using m(2) ycpos by simp
  also have "\<dots> = C / 2 ^ 24 * Y" by simp
  finally have "\<bar>\<rho> - C\<bar> \<le> C / 2 ^ 24"
    using Ypos by (simp only: mult_le_cancel_right_pos)
  then have e5: "\<bar>\<rho> - C\<bar> \<le> C / 16777216" by simp
  have c2: "\<bar>C - b\<bar> \<le> 3 / 10000000" using c(2) by simp
  have br: "965 / 1000 \<le> b" "b \<le> 1034 / 1000" using zr by (simp_all add: b_def)
  have l5: "\<rho> \<le> C + C / 16777216" "C - C / 16777216 \<le> \<rho>" using e5 by linarith+
  have l6: "C \<le> b + 3 / 10000000" "b - 3 / 10000000 \<le> C" using c2 by linarith+
  have rb: "\<rho> - b \<le> 4 / 10000000" "- (4 / 10000000) \<le> \<rho> - b"
    using l5 l6 br by argo+
  have \<rho>pos: "0 < \<rho>" using rb br by argo
  show "0 < valof (inv_sqrt n)"
    using \<rho>pos Ypos R by (simp add: R_def)
  have "\<bar>\<rho> - b\<bar> \<le> 4 / 10000000" using rb by argo
  moreover have "\<bar>\<rho> + b\<bar> \<le> 21 / 10" using rb br by argo
  ultimately have "\<bar>\<rho> - b\<bar> * \<bar>\<rho> + b\<bar> \<le> 4 / 10000000 * (21 / 10)"
    by (intro mult_mono) simp_all
  moreover have "\<rho>\<^sup>2 - b\<^sup>2 = (\<rho> - b) * (\<rho> + b)"
    by (simp add: power2_eq_square algebra_simps)
  ultimately have d: "\<bar>\<rho>\<^sup>2 - b\<^sup>2\<bar> \<le> 84 / 100000000"
    by (simp add: abs_mult)
  have "\<bar>z * \<rho>\<^sup>2 - z * b\<^sup>2\<bar> = z * \<bar>\<rho>\<^sup>2 - b\<^sup>2\<bar>"
    using zr(1) by (simp add: abs_mult flip: right_diff_distrib)
  also have "\<dots> \<le> 107 / 100 * (84 / 100000000)"
    using zr d by (intro mult_mono) simp_all
  finally have e: "\<bar>z * \<rho>\<^sup>2 - z * b\<^sup>2\<bar> \<le> 9 / 10000000" by simp
  note g = newton_gain [OF zr, folded b_def]
  have "\<bar>z * \<rho>\<^sup>2 - 1\<bar> \<le> 4 / 1000" using e g by argo
  moreover have "R\<^sup>2 * N = z * \<rho>\<^sup>2"
    by (simp add: R z_def power_mult_distrib algebra_simps)
  ultimately show "\<bar>(valof (inv_sqrt n))\<^sup>2 * valof n - 1\<bar> \<le> 4 / 1000"
    by (simp add: R_def N_def)
qed

section \<open>Scaling by powers of two\<close>

lemma sig24_range:
  assumes "0 < m"
  shows "2 ^ 23 \<le> sig24 m" "sig24 m \<le> 2 ^ 24"
proof -
  define k where "k = bit_length m"
  have k: "2 ^ (k - 1) \<le> m" "m < 2 ^ k"
    using bit_length_bounds [OF assms] by (simp_all add: k_def)
  have kpos: "0 < k" using assms k(2) by (cases k) simp_all
  have "2 ^ 23 \<le> sig24 m \<and> sig24 m \<le> 2 ^ 24"
  proof (cases "k \<le> 24")
    case True
    then have s: "sig24 m = m * 2 ^ (24 - k)" by (simp add: sig24_def k_def)
    have "(2::nat) ^ 23 = 2 ^ (k - 1) * 2 ^ (24 - k)"
      using True kpos by (simp flip: power_add)
    also have "\<dots> \<le> m * 2 ^ (24 - k)" using k(1) by simp
    finally have a: "2 ^ 23 \<le> m * 2 ^ (24 - k)" .
    have "m * 2 ^ (24 - k) < 2 ^ k * 2 ^ (24 - k)" using k(2) by simp
    also have "\<dots> = 2 ^ 24" using True by (simp flip: power_add)
    finally show ?thesis unfolding s using a by simp
  next
    case False
    then have s: "sig24 m = round_shift m (k - 24)" by (simp add: sig24_def k_def)
    have d: "0 < k - 24" using False by simp
    have "k - 24 + 23 = k - 1" "k - 24 + 24 = k" using False by simp_all
    then have "2 ^ (k - 24 + 23) \<le> m" "m < 2 ^ (k - 24 + 24)" using k by simp_all
    then show ?thesis
      unfolding s using round_shift_lower [OF d] round_shift_upper [OF d] by blast
  qed
  then show "2 ^ 23 \<le> sig24 m" "sig24 m \<le> 2 ^ 24" by simp_all
qed

lemma round_pack_sig24:
  assumes "0 < m" "- 149 \<le> e + int (bit_length m) - 24"
  shows "round_pack s m e = pack s (sig24 m) (e + int (bit_length m) - 24)"
proof -
  define k where "k = bit_length m"
  define e' where "e' = e + int k - 24"
  have "max (e + int (bit_length m) - 24) (- 149) = e'"
    using assms(2) by (simp add: e'_def k_def)
  then have rp: "round_pack s m e = round_at s m e e'"
    using assms(1) by (simp add: round_pack_def)
  show ?thesis
  proof (cases "k \<le> 24")
    case True
    then have "e' \<le> e" "nat (e - e') = 24 - k" by (simp_all add: e'_def)
    then show ?thesis
      unfolding rp using True by (simp add: round_at_def sig24_def k_def e'_def)
  next
    case False
    then have "\<not> e' \<le> e" "nat (e' - e) = k - 24" by (simp_all add: e'_def)
    then show ?thesis
      unfolding rp using False by (simp add: round_at_def sig24_def k_def e'_def)
  qed
qed

lemma float_eqI:
  fixes a b :: float32
  assumes "sign a = sign b" "unat (expo a) = unat (expo b)"
    "unat (fraction a) = unat (fraction b)"
  shows "a = b"
proof -
  have "unat (float_bits a) = unat (float_bits b)"
    unfolding unat_float_bits using assms by simp
  then have "float_bits a = float_bits b" by (simp add: word_unat_eq_iff)
  then have "bits_float (float_bits a) = bits_float (float_bits b)" by simp
  then show ?thesis by (simp only: bits_float_inverse)
qed

lemma scale_expo_fields:
  assumes "0 \<le> int (unat (expo f)) + d" "int (unat (expo f)) + d < 256"
  shows "sign (scale_expo f d) = sign f"
    "int (unat (expo (scale_expo f d))) = int (unat (expo f)) + d"
    "unat (fraction (scale_expo f d)) = unat (fraction f)"
proof -
  have e: "nat (int (unat (expo f)) + d) < 256" using assms by simp
  have fl: "unat (fraction f) < 2 ^ 23" using fraction_less [of f] by simp
  note f = mk_float_fields [OF e fl, of "sign f"]
  show "sign (scale_expo f d) = sign f" "unat (fraction (scale_expo f d)) = unat (fraction f)"
    unfolding scale_expo_def using f mk_float_fields by simp_all
  show "int (unat (expo (scale_expo f d))) = int (unat (expo f)) + d"
    unfolding scale_expo_def f(2) using assms(1) by simp
qed

lemma pack_scale:
  assumes q: "2 ^ 23 \<le> q" "q \<le> 2 ^ 24"
    and e: "- 149 \<le> e" "e \<le> 103" "- 149 \<le> e + d" "e + d \<le> 103"
  shows "pack s q (e + d) = scale_expo (pack s q e) d"
proof (cases "q = 2 ^ 24")
  case True
  have p: "pack s q e = mk_float s (nat (e + 151)) 0"
    "pack s q (e + d) = mk_float s (nat (e + d + 151)) 0"
    using True e by (simp_all add: pack_def)
  have b: "nat (e + 151) < 256" "(0::nat) < 2 ^ 23" using e by simp_all
  show ?thesis
    unfolding p scale_expo_def mk_float_fields [OF b] using e by (simp add: algebra_simps)
next
  case False
  have p: "pack s q e = mk_float s (nat (e + 150)) (q - 2 ^ 23)"
    "pack s q (e + d) = mk_float s (nat (e + d + 150)) (q - 2 ^ 23)"
    using False q e by (simp_all add: pack_def)
  have b: "nat (e + 150) < 256" "q - 2 ^ 23 < 2 ^ 23" using e q False by simp_all
  show ?thesis
    unfolding p scale_expo_def mk_float_fields [OF b] using e by (simp add: algebra_simps)
qed

lemma mag_bit_length:
  assumes "0 < m"
  shows "2 powi (e + int (bit_length m) - 1) \<le> real m * 2 powi e"
    "real m * 2 powi e < 2 powi (e + int (bit_length m))"
proof -
  define k where "k = bit_length m"
  have k: "2 ^ (k - 1) \<le> m" "m < 2 ^ k"
    using bit_length_bounds [OF assms] by (simp_all add: k_def)
  have kpos: "0 < k" using assms k(2) by (cases k) simp_all
  have "real (2 ^ (k - 1)) \<le> real m" using k(1) by (simp only: of_nat_le_iff)
  then have kr: "(2::real) ^ (k - 1) \<le> real m" by simp
  have "int k - 1 = int (k - 1)" using kpos by simp
  then have "(2::real) powi (int k - 1) = 2 ^ (k - 1)" by (simp only: power_int_of_nat)
  with kr have km: "2 powi (int k - 1) \<le> real m" by (simp only:)
  have "(2::real) powi (e + int k - 1) = 2 powi (int k - 1) * 2 powi e"
    by (simp add: power_int_add [symmetric] algebra_simps)
  also have "\<dots> \<le> real m * 2 powi e" by (intro mult_right_mono km) simp
  finally show "2 powi (e + int (bit_length m) - 1) \<le> real m * 2 powi e"
    by (simp add: k_def)
  have "real m < real (2 ^ k)" using k(2) by (simp only: of_nat_less_iff)
  then have "real m < 2 powi int k" by simp
  then have "real m * 2 powi e < 2 powi int k * 2 powi e"
    by (intro mult_strict_right_mono) simp_all
  also have "\<dots> = 2 powi (e + int k)" by (simp add: power_int_add algebra_simps)
  finally show "real m * 2 powi e < 2 powi (e + int (bit_length m))"
    by (simp add: k_def)
qed

lemma round_pack_scale:
  assumes m: "0 < m"
    and lo: "2 powi (- 100) \<le> real m * 2 powi e" and hi: "real m * 2 powi e \<le> 2 powi 100"
    and d: "- 20 \<le> d" "d \<le> 20"
  shows "round_pack s m (e + d) = scale_expo (round_pack s m e) d"
proof -
  define e0 where "e0 = e + int (bit_length m) - 24"
  note b = mag_bit_length [OF m, of e]
  have "(2::real) powi (e + int (bit_length m) - 1) \<le> 2 powi 100" using b(1) hi by linarith
  then have "e + int (bit_length m) - 1 \<le> 100" by (simp only: two_powi_le_iff)
  then have u: "e0 \<le> 77" by (simp add: e0_def)
  have "(2::real) powi (- 100) < 2 powi (e + int (bit_length m))" using b(2) lo by linarith
  then have "- 100 < e + int (bit_length m)" by (simp only: two_powi_less_iff)
  then have l: "- 124 \<le> e0" by (simp add: e0_def)
  have r1: "round_pack s m e = pack s (sig24 m) e0"
    using l by (simp add: round_pack_sig24 [OF m] e0_def)
  have eq: "e + d + int (bit_length m) - 24 = e0 + d" by (simp add: e0_def)
  have "- 149 \<le> e + d + int (bit_length m) - 24" unfolding eq using l d by simp
  from round_pack_sig24 [OF m this, of s]
  have r2: "round_pack s m (e + d) = pack s (sig24 m) (e0 + d)"
    unfolding eq .
  show ?thesis
    unfolding r1 r2 using l u d by (intro pack_scale sig24_range [OF m]) simp_all
qed

lemma fmul_scale:
  assumes fin: "is_finite a" "is_finite b" "is_finite a'" "is_finite b'"
    and sg: "sign a' = sign a" "sign b' = sign b"
    and mt: "mant a' = mant a" "mant b' = mant b"
    and ex: "expn a' = expn a + da" "expn b' = expn b + db"
    and lo: "2 powi (- 100) \<le> \<bar>valof a * valof b\<bar>"
    and hi: "\<bar>valof a * valof b\<bar> \<le> 2 powi 100"
    and d: "- 20 \<le> da + db" "da + db \<le> 20"
  shows "fmul a' b' = scale_expo (fmul a b) (da + db)"
proof -
  have ab: "\<bar>valof a * valof b\<bar> = real (mant a * mant b) * 2 powi (expn a + expn b)"
    unfolding mag_mult by (simp add: abs_mult abs_valof)
  have "0 < \<bar>valof a * valof b\<bar>" using lo by (rule pos_of_powi_le)
  have "mant a * mant b \<noteq> 0"
  proof
    assume z: "mant a * mant b = 0"
    have "\<bar>valof a * valof b\<bar> = 0" unfolding ab z by simp
    with \<open>0 < \<bar>valof a * valof b\<bar>\<close> show False by simp
  qed
  then have m: "0 < mant a * mant b" by simp
  have e: "expn a' + expn b' = expn a + expn b + (da + db)" using ex by simp
  show ?thesis
    unfolding fmul_finite [OF fin(1,2)] fmul_finite [OF fin(3,4)] sg mt e
    using lo hi d unfolding ab by (intro round_pack_scale [OF m])
qed

lemma bit_length_unique:
  assumes "2 ^ (k - 1) \<le> m" "m < 2 ^ k" "0 < k"
  shows "bit_length m = k"
proof -
  have m: "0 < m" using assms(1) by (cases "m = 0") simp_all
  note b = bit_length_bounds [OF m]
  have bpos: "0 < bit_length m" using m b by (cases "bit_length m") simp_all
  have "(2::nat) ^ (k - 1) < 2 ^ bit_length m" using assms(1) b by linarith
  then have "k - 1 < bit_length m" by (simp only: power_strict_increasing_iff) 
  moreover have "(2::nat) ^ (bit_length m - 1) < 2 ^ k" using assms(2) b by linarith
  then have "bit_length m - 1 < k" by (simp only: power_strict_increasing_iff) 
  ultimately show ?thesis using assms(3) bpos by linarith
qed

lemma sig24_exact:
  assumes "2 ^ 23 \<le> m" "m < 2 ^ 24"
  shows "bit_length (m * 2 ^ j) = 24 + j" "sig24 (m * 2 ^ j) = m"
proof -
  have "2 ^ (24 + j - 1) \<le> m * 2 ^ j"
  proof -
    have "(2::nat) ^ (24 + j - 1) = 2 ^ 23 * 2 ^ j" by (simp add: power_add)
    also have "\<dots> \<le> m * 2 ^ j" using assms(1) by (intro mult_right_mono) simp_all
    finally show ?thesis .
  qed
  moreover have "m * 2 ^ j < 2 ^ (24 + j)"
  proof -
    have "m * 2 ^ j < 2 ^ 24 * 2 ^ j" using assms(2) by simp
    then show ?thesis by (simp add: power_add)
  qed
  ultimately show k: "bit_length (m * 2 ^ j) = 24 + j"
    by (intro bit_length_unique) simp_all
  show "sig24 (m * 2 ^ j) = m"
  proof (cases "j = 0")
    case True
    then show ?thesis using k by (simp add: sig24_def)
  next
    case False
    then have h: "(0::nat) < 2 ^ (j - 1)" by simp
    show ?thesis
      unfolding sig24_def k using False by (simp add: round_shift_def round_up_def)
  qed
qed

lemma round_pack_exact:
  assumes m: "2 ^ 23 \<le> m" "m < 2 ^ 24" and e: "- 149 \<le> e + int j" "e + int j \<le> 104"
  shows "round_pack s (m * 2 ^ j) e = mk_float s (nat (e + int j + 150)) (m - 2 ^ 23)"
proof -
  have pos: "0 < m * 2 ^ j" using m(1) by simp
  have "round_pack s (m * 2 ^ j) e = pack s m (e + int j)"
    using round_pack_sig24 [OF pos, of e s] e(1)
    by (simp add: sig24_exact [OF m] algebra_simps)
  then show ?thesis using m e by (simp add: pack_def)
qed

lemma normal_fields:
  assumes "1 \<le> unat (expo f)" "unat (expo f) \<le> 254"
  shows "mant f = 2 ^ 23 + unat (fraction f)" "expn f = int (unat (expo f)) - 150"
    "is_finite f"
  using assms by (simp_all add: mant_unat expn_unat is_finite_def expo_max_iff)

lemma scale_expo_normal:
  assumes "1 \<le> unat (expo f)" "unat (expo f) \<le> 254"
    and "1 \<le> int (unat (expo f)) + d" "int (unat (expo f)) + d \<le> 254"
  shows "sign (scale_expo f d) = sign f" "mant (scale_expo f d) = mant f"
    "expn (scale_expo f d) = expn f + d" "is_finite (scale_expo f d)"
    "int (unat (expo (scale_expo f d))) = int (unat (expo f)) + d"
    "unat (fraction (scale_expo f d)) = unat (fraction f)"
proof -
  have b: "0 \<le> int (unat (expo f)) + d" "int (unat (expo f)) + d < 256"
    using assms(3,4) by simp_all
  note s = scale_expo_fields [OF b]
  have e: "1 \<le> unat (expo (scale_expo f d))" "unat (expo (scale_expo f d)) \<le> 254"
    using s(2) assms(3,4) by linarith+
  show "sign (scale_expo f d) = sign f" by (rule s(1))
  show "mant (scale_expo f d) = mant f"
    unfolding normal_fields(1) [OF e] normal_fields(1) [OF assms(1,2)] s(3) ..
  show "expn (scale_expo f d) = expn f + d"
    unfolding normal_fields(2) [OF e] normal_fields(2) [OF assms(1,2)] s(2) by simp
  show "is_finite (scale_expo f d)" by (rule normal_fields(3) [OF e])
  show "int (unat (expo (scale_expo f d))) = int (unat (expo f)) + d" by (rule s(2))
  show "unat (fraction (scale_expo f d)) = unat (fraction f)" by (rule s(3))
qed

lemma scale_expo_zero: "scale_expo f 0 = f"
proof -
  have b: "0 \<le> int (unat (expo f)) + 0" "int (unat (expo f)) + 0 < 256"
    using expo_less [of f] by linarith+
  note s = scale_expo_fields [OF b]
  have "unat (expo (scale_expo f 0)) = unat (expo f)" using s(2) by linarith
  then show ?thesis
    by (intro float_eqI s(1) s(3))
qed

lemma fmul_pow2:
  assumes E: "1 \<le> unat (expo f)" "unat (expo f) \<le> 254"
    and P: "1 \<le> P" "P \<le> 254"
    and r: "1 \<le> int (unat (expo f)) + int P - 127" "int (unat (expo f)) + int P - 127 \<le> 254"
  shows "fmul f (mk_float False P 0) = scale_expo f (int P - 127)"
proof -
  define p where "p = mk_float False P 0"
  have pb: "P < 256" "(0::nat) < 2 ^ 23" "P < 255" using P by simp_all
  have pf: "is_finite p" "sign p = False" "mant p = 2 ^ 23" "expn p = int P - 150"
    unfolding p_def using mk_float_finite [OF pb(3,2)] mk_float_fields(1) [OF pb(1,2)]
      mk_float_mant [OF pb(1,2)] mk_float_expn [OF pb(1,2)] P by simp_all
  note nf = normal_fields [OF E]
  define m where "m = 2 ^ 23 + unat (fraction f)"
  have m: "2 ^ 23 \<le> m" "m < 2 ^ 24" using fraction_less [of f] by (simp_all add: m_def)
  define e where "e = int (unat (expo f)) - 150 + (int P - 150)"
  have e: "- 149 \<le> e + int 23" "e + int 23 \<le> 104" using r unfolding e_def by linarith+
  have "fmul f p = round_pack (sign f) (m * 2 ^ 23) e"
    unfolding fmul_finite [OF nf(3) pf(1)] pf nf(1,2) by (simp add: m_def e_def)
  also have "\<dots> = mk_float (sign f) (nat (e + int 23 + 150)) (m - 2 ^ 23)"
    by (rule round_pack_exact [OF m e])
  also have "\<dots> = scale_expo f (int P - 127)"
    unfolding scale_expo_def by (simp add: m_def e_def algebra_simps)
  finally show ?thesis unfolding p_def .
qed

lemma fdiv_two:
  assumes E: "2 \<le> unat (expo f)" "unat (expo f) \<le> 254"
  shows "fdiv f float_two = scale_expo f (- 1)"
proof -
  have E1: "1 \<le> unat (expo f)" using E(1) by simp
  note nf = normal_fields [OF E1 E(2)]
  have pb: "(128::nat) < 256" "(0::nat) < 2 ^ 23" "(128::nat) < 255" by simp_all
  have pf: "is_finite float_two" "sign float_two = False" "mant float_two = 2 ^ 23"
    "expn float_two = - 22"
    unfolding float_two_def using mk_float_finite [OF pb(3,2)] mk_float_fields(1) [OF pb(1,2)]
      mk_float_mant [OF pb(1,2)] mk_float_expn [OF pb(1,2)] by simp_all
  have nz: "\<not> is_zero float_two"
    using mk_float_fields(2) [OF pb(1,2), of False]
    by (auto simp add: is_zero_def float_two_def expo_zero_iff)
  define m where "m = 2 ^ 23 + unat (fraction f)"
  have m: "2 ^ 23 \<le> m" "m < 2 ^ 24" using fraction_less [of f] by (simp_all add: m_def)
  define e where "e = int (unat (expo f)) - 179"
  have e: "- 149 \<le> e + int 28" "e + int 28 \<le> 104" using E unfolding e_def by linarith+
  have q: "m * 2 ^ 50 div 2 ^ 23 = m * 2 ^ 27" "m * 2 ^ 50 mod 2 ^ 23 = 0"
  proof -
    have "m * 2 ^ 50 = m * 2 ^ 27 * 2 ^ 23" by simp
    then show "m * 2 ^ 50 div 2 ^ 23 = m * 2 ^ 27" "m * 2 ^ 50 mod 2 ^ 23 = 0"
      by (simp_all only: div_mult_self_is_m mod_mult_self2_is_0 nonzero_mult_div_cancel_right)
         simp_all
  qed
  have "fdiv f float_two = quot_pack (sign f) (int (unat (expo f)) - 150 - (- 22) - 50)
      (m * 2 ^ 50 div 2 ^ 23) (m * 2 ^ 50 mod 2 ^ 23)"
    using finite_not_special [OF nf(3)] finite_not_special [OF pf(1)] nz
    by (simp add: fdiv_def pf nf(1,2) m_def)
  also have "\<dots> = round_pack (sign f) (m * 2 ^ 28) e"
    unfolding q quot_pack_def by (simp add: e_def mult.commute)
  also have "\<dots> = mk_float (sign f) (nat (e + int 28 + 150)) (m - 2 ^ 23)"
    by (rule round_pack_exact [OF m e])
  also have "\<dots> = scale_expo f (- 1)"
    unfolding scale_expo_def by (simp add: m_def e_def algebra_simps)
  finally show ?thesis .
qed

lemma expo_of_mag:
  assumes "is_finite f" "2 powi (- 100) \<le> mag f" "mag f \<le> 2 powi 100"
  shows "27 \<le> unat (expo f)" "unat (expo f) \<le> 227"
proof -
  define E where "E = unat (expo f)"
  define F where "F = unat (fraction f)"
  have "F < 8388608" unfolding F_def by (rule fraction_less)
  then have F: "real F < 2 ^ 23" by simp
  have E0: "E \<noteq> 0"
  proof
    assume z: "E = 0"
    then have "mag f = real F * 2 powi (- 149)"
      by (simp add: mag_def mant_unat expn_unat E_def F_def)
    also have "\<dots> < 2 ^ 23 * 2 powi (- 149)"
      using F by (intro mult_strict_right_mono) simp_all
    also have "\<dots> = (2::real) powi (- 126)" by (simp add: power_int_minus_divide)
    also have "\<dots> \<le> 2 powi (- 100)" by (simp only: two_powi_le_iff)
    finally show False using assms(2) by simp
  qed
  then have m: "mag f = (2 ^ 23 + real F) * 2 powi (int E - 150)"
    by (simp add: mag_def mant_unat expn_unat E_def F_def)
  have "(2::real) powi (int E - 127) = 2 ^ 23 * 2 powi (int E - 150)"
    by (simp add: power_int_diff)
  also have "\<dots> \<le> mag f" unfolding m by (intro mult_right_mono) simp_all
  finally have "(2::real) powi (int E - 127) \<le> 2 powi 100" using assms(3) by linarith
  then have "int E - 127 \<le> 100" by (simp only: two_powi_le_iff)
  then show "unat (expo f) \<le> 227" unfolding E_def by linarith
  have "mag f < 2 ^ 24 * 2 powi (int E - 150)"
    unfolding m using F by (intro mult_strict_right_mono) simp_all
  also have "\<dots> = (2::real) powi (int E - 126)" by (simp add: power_int_diff)
  finally have "(2::real) powi (- 100) < 2 powi (int E - 126)" using assms(2) by linarith
  then have "- 100 < int E - 126" by (simp only: two_powi_less_iff)
  then show "27 \<le> unat (expo f)" unfolding E_def by linarith
qed

lemma est_shift:
  assumes "1 \<le> E" "E \<le> 254"
  shows "est_mant (E + 2) F = est_mant E F" "est_expo (E + 2) F + 1 = est_expo E F"
proof -
  have k: "E div 2 \<le> 127" using assms(2) by simp
  show "est_mant (E + 2) F = est_mant E F" by (simp add: est_mant_def)
  define h where "h = E div 2"
  have "(E + 2) div 2 = h + 1" by (simp add: h_def)
  then show "est_expo (E + 2) F + 1 = est_expo E F"
    unfolding est_expo_def h_def [symmetric] using k unfolding h_def [symmetric]
    by (simp split: if_splits) linarith
qed

lemma estimate_normal_fields:
  assumes "pos_normal n"
  shows "\<not> sign (estimate n)" "is_finite (estimate n)"
    "mant (estimate n) = est_mant (unat (expo n)) (unat (fraction n))"
    "expn (estimate n) = int (est_expo (unat (expo n)) (unat (fraction n))) - 150"
proof -
  note f = estimate_fields [OF assms]
  have e: "1 \<le> unat (expo (estimate n))" "unat (expo (estimate n)) \<le> 254"
    using f(2,4,5) by simp_all
  show "\<not> sign (estimate n)" by (rule f(1))
  show "is_finite (estimate n)" by (rule normal_fields(3) [OF e])
  show "mant (estimate n) = est_mant (unat (expo n)) (unat (fraction n))"
    unfolding normal_fields(1) [OF e] using f(3) by simp
  show "expn (estimate n) = int (est_expo (unat (expo n)) (unat (fraction n))) - 150"
    unfolding normal_fields(2) [OF e] f(2) ..
qed

section \<open>Scaling the input by four\<close>

lemma pos_of_abs_eq:
  fixes x :: real
  assumes "0 < x"
  shows "\<bar>x\<bar> = x"
  using assms by simp

lemma quarter_scaling:
  assumes n: "pos_normal n" and E: "2 \<le> unat (expo n)" "unat (expo n) \<le> 252"
  shows "pos_normal (scale_expo n 2)"
    "inv_sqrt (scale_expo n 2) = scale_expo (inv_sqrt n) (- 1)"
proof -
  define n4 where "n4 = scale_expo n 2"
  define y where "y = estimate n"
  define y4 where "y4 = estimate n4"
  define x where "x = fmul n float_half"
  define x4 where "x4 = fmul n4 float_half"
  have E1: "1 \<le> unat (expo n)" "unat (expo n) \<le> 254" using E by simp_all
  have r4: "1 \<le> int (unat (expo n)) + 2" "int (unat (expo n)) + 2 \<le> 254"
    using E by linarith+
  note s4 = scale_expo_normal [OF E1 r4, folded n4_def]
  have E4: "unat (expo n4) = unat (expo n) + 2" using s4(5) by linarith
  have E41: "1 \<le> unat (expo n4)" "unat (expo n4) \<le> 254" using E4 E by simp_all
  have sn: "\<not> sign n" using n by (simp add: pos_normal_def)
  have n4: "pos_normal n4"
    using s4(1) sn E41 by (simp add: pos_normal_def is_normal_def expo_zero_iff expo_max_iff)
  then show "pos_normal (scale_expo n 2)" by (simp add: n4_def)
  \<comment> \<open>the estimate loses one from its exponent\<close>
  note yf = estimate_normal_fields [OF n, folded y_def]
  note y4f = estimate_normal_fields [OF n4, folded y4_def, unfolded E4 s4(6)]
  note sh = est_shift [OF E1, of "unat (fraction n)"]
  have ym: "mant y4 = mant y" unfolding y4f(3) yf(3) sh(1) ..
  have ye: "expn y4 = expn y + (- 1)" unfolding y4f(4) yf(4) using sh(2) by linarith
  have ys: "sign y4 = sign y" using yf(1) y4f(1) by simp
  \<comment> \<open>halving is exact on both inputs\<close>
  have h: "(1::nat) \<le> 126" "(126::nat) \<le> 254" by simp_all
  have rx: "1 \<le> int (unat (expo n)) + int 126 - 127" "int (unat (expo n)) + int 126 - 127 \<le> 254"
    using E by linarith+
  have rx4: "1 \<le> int (unat (expo n4)) + int 126 - 127"
    "int (unat (expo n4)) + int 126 - 127 \<le> 254"
    using E4 E by linarith+
  have xs: "x = scale_expo n (- 1)"
    unfolding x_def float_half_def using fmul_pow2 [OF E1 h rx] by simp
  have x4s: "x4 = scale_expo n4 (- 1)"
    unfolding x4_def float_half_def using fmul_pow2 [OF E41 h rx4] by simp
  have d1: "1 \<le> int (unat (expo n)) + (- 1)" "int (unat (expo n)) + (- 1) \<le> 254"
    using E by linarith+
  have d4: "1 \<le> int (unat (expo n4)) + (- 1)" "int (unat (expo n4)) + (- 1) \<le> 254"
    using E4 E by linarith+
  note xf = scale_expo_normal [OF E1 d1, folded xs]
  note x4f = scale_expo_normal [OF E41 d4, folded x4s]
  have xm: "mant x4 = mant x" unfolding x4f(2) xf(2) s4(2) ..
  have xe: "expn x4 = expn x + 2" unfolding x4f(3) xf(3) s4(3) by simp
  have xsg: "sign x4 = sign x" unfolding x4f(1) xf(1) s4(1) ..
  \<comment> \<open>the first product doubles\<close>
  note ab = step_a_bounds [OF n, folded x_def y_def]
  have xy: "0 < valof x * valof y" using ab(2) by (rule pos_of_powi_le)
  have ablo: "2 powi (- 100) \<le> \<bar>valof x * valof y\<bar>"
  proof -
    have "(2::real) powi (- 100) \<le> 2 powi (- 66)" by (simp only: two_powi_le_iff)
    then show ?thesis using ab(2) xy by linarith
  qed
  have abhi: "\<bar>valof x * valof y\<bar> \<le> 2 powi 100"
  proof -
    have "(2::real) powi 65 \<le> 2 powi 100" by (simp only: two_powi_le_iff)
    then show ?thesis using ab(3) xy by linarith
  qed
  have a4: "step_a n4 = scale_expo (step_a n) (2 + (- 1))"
    unfolding step_a_def x_def [symmetric] x4_def [symmetric] y_def [symmetric]
      y4_def [symmetric]
    by (rule fmul_scale [OF xf(4) yf(2) x4f(4) y4f(2) xsg ys xm ym xe ye ablo abhi]) simp_all
  \<comment> \<open>the second product is unchanged\<close>
  note ub = step_u_bounds [OF n, folded y_def]
  note Yr = valof_estimate_range [OF n, folded y_def]
  have Ypos: "0 < valof y" using Yr(1) by (rule pos_of_powi_le)
  have apos: "0 < valof (step_a n)"
  proof (rule ccontr)
    assume "\<not> 0 < valof (step_a n)"
    then have "valof (step_a n) * valof y \<le> 0"
      using Ypos by (simp add: mult_le_0_iff)
    then show False using ub(3) by linarith
  qed
  have "2 powi (- 66) * valof y \<le> 2 powi (- 66) * 2 powi 64"
    using Yr(2) by (intro mult_left_mono) simp_all
  also have "\<dots> = (1 / 4 :: real)" by (simp add: power_int_minus_divide)
  finally have alo: "2 powi (- 66) \<le> valof (step_a n)"
    using ub(3) by (intro scaled_lower [of "valof (step_a n)" "valof y", OF refl Ypos]) linarith
  have "(1::real) = 2 powi 65 * 2 powi (- 65)" by (simp add: power_int_minus_divide)
  also have "\<dots> \<le> 2 powi 65 * valof y"
    using Yr(1) by (intro mult_left_mono) simp_all
  finally have ahi: "valof (step_a n) \<le> 2 powi 65"
    using ub(4) by (intro scaled_upper [of "valof (step_a n)" "valof y", OF refl Ypos]) linarith
  have am: "mag (step_a n) = valof (step_a n)"
    using abs_valof [of "step_a n"] apos by simp
  have "(2::real) powi (- 100) \<le> 2 powi (- 66)" "(2::real) powi 65 \<le> 2 powi 100"
    by (simp_all only: two_powi_le_iff)
  then have amag: "2 powi (- 100) \<le> mag (step_a n)" "mag (step_a n) \<le> 2 powi 100"
    unfolding am using alo ahi by linarith+
  note ae = expo_of_mag [OF ab(1) amag]
  have ae1: "1 \<le> unat (expo (step_a n))" "unat (expo (step_a n)) \<le> 254"
    "1 \<le> int (unat (expo (step_a n))) + 1" "int (unat (expo (step_a n))) + 1 \<le> 254"
    using ae by linarith+
  note af = scale_expo_normal [OF ae1]
  have a4': "step_a n4 = scale_expo (step_a n) 1" using a4 by simp
  have ulo: "2 powi (- 100) \<le> \<bar>valof (step_a n) * valof y\<bar>"
  proof -
    have "(2::real) powi (- 100) \<le> 1 / 4" by (simp add: power_int_minus_divide)
    then show ?thesis using ub(3) by linarith
  qed
  have uhi: "\<bar>valof (step_a n) * valof y\<bar> \<le> 2 powi 100"
  proof -
    have "(1::real) \<le> 2 powi 100" by simp
    then show ?thesis using ub(3,4) by linarith
  qed
  have "step_u n4 = scale_expo (step_u n) (1 + (- 1))"
    unfolding step_u_def a4' y_def [symmetric] y4_def [symmetric]
    by (rule fmul_scale [OF ab(1) yf(2) af(4) y4f(2) af(1) ys af(2) ym af(3) ye ulo uhi])
      simp_all
  then have u4: "step_u n4 = step_u n" by (simp add: scale_expo_zero)
  have c4: "step_c n4 = step_c n" by (simp add: step_c_def u4)
  \<comment> \<open>the last product halves\<close>
  note cb = step_c_bounds [OF n]
  note rb = inv_sqrt_bounds [OF n, folded y_def]
  have yc: "0 < valof y * valof (step_c n)" using rb(4) by (rule pos_of_powi_le)
  have rlo: "2 powi (- 100) \<le> \<bar>valof y * valof (step_c n)\<bar>"
  proof -
    have "(2::real) powi (- 100) \<le> 2 powi (- 66)" by (simp only: two_powi_le_iff)
    then show ?thesis using rb(4) yc by linarith
  qed
  have rhi: "\<bar>valof y * valof (step_c n)\<bar> \<le> 2 powi 100"
  proof -
    have "(2::real) powi 65 \<le> 2 powi 100" by (simp only: two_powi_le_iff)
    then show ?thesis using rb(5) yc by linarith
  qed
  have c0: "expn (step_c n) = expn (step_c n) + 0" by simp
  have "inv_sqrt n4 = scale_expo (inv_sqrt n) (- 1 + 0)"
    unfolding inv_sqrt_steps c4 y_def [symmetric] y4_def [symmetric]
    by (rule fmul_scale [OF yf(2) cb(1) y4f(2) cb(1) ys refl ym refl ye c0 rlo rhi]) simp_all
  then show "inv_sqrt (scale_expo n 2) = scale_expo (inv_sqrt n) (- 1)"
    by (simp add: n4_def)
qed

section \<open>The subtraction on \<open>long\<close>\<close>

text \<open>
  For an input with a clear sign bit the difference \<open>0x5f3759df - (i >> 1)\<close> stays inside
  the range of a 32-bit \<open>long\<close>, so the wrap-around of the model is never used there. For
  a negative input of small magnitude it is used: on \<open>-0.0\<close> the exact difference is
  \<open>2671204831\<close>, beyond \<open>2 ^ 31 - 1\<close>, which ISO C leaves undefined and
  two's-complement hardware wraps.
\<close>

lemma sint_small:
  fixes w :: "32 word"
  assumes "unat w < 2147483648"
  shows "sint w = int (unat w)"
proof -
  have nb: "\<not> bit w 31"
    using bits_float_fields(1) [of w] assms by (simp add: bits_float_def)
  then have "\<not> bit (uint w) 31" by (simp add: bit_unsigned_iff)
  then have "sint w = take_bit 31 (uint w)"
    by (simp add: sint_uint signed_take_bit_eq_if_positive)
  also have "\<dots> = uint w mod 2147483648" by (simp add: take_bit_eq_mod)
  also have "\<dots> = int (unat w) mod 2147483648" by (simp only: uint_nat)
  also have "\<dots> = int (unat w)"
    using assms by (intro mod_pos_pos_trivial) linarith+
  finally show ?thesis .
qed

lemma long_subtraction_in_range:
  assumes "\<not> sign n"
  shows "sint (magic - signed_drop_bit 1 (float_bits n))
    = sint magic - sint (signed_drop_bit 1 (float_bits n))"
proof -
  define w where "w = float_bits n"
  define h where "h = unat (expo n) * 4194304 + unat (fraction n) div 2"
  have x: "unat w = unat (expo n) * 8388608 + unat (fraction n)"
    using assms by (simp add: w_def unat_float_bits)
  have "\<not> bit w 31" using assms by (simp add: w_def float_bits_sign)
  then have sd: "signed_drop_bit 1 w = drop_bit 1 w" by (rule signed_drop_bit_nonneg)
  have "unat (expo n) * 8388608 = 2 * (unat (expo n) * 4194304)" by simp
  then have "unat w div 2 = h"
    unfolding x h_def by (simp only: div_mult_self4)
  moreover have "unat (drop_bit 1 w) = unat w div 2"
    by (subst unat_drop_bit_eq) (simp add: drop_bit_eq_div)
  ultimately have d: "unat (signed_drop_bit 1 w) = h" unfolding sd by simp
  have hb: "h < 1073741824"
    unfolding h_def using expo_less [of n] fraction_less [of n] by linarith
  have r: "unat (magic - signed_drop_bit 1 w) = 1597463007 - h"
    using estimate_unat [OF assms] by (simp add: w_def h_def)
  have m: "unat magic = 1597463007" by (simp add: magic_def)
  have "unat (signed_drop_bit 1 w) < 2147483648" unfolding d using hb by linarith
  then have s1: "sint (signed_drop_bit 1 w) = int h"
    unfolding d [symmetric] by (rule sint_small)
  have "unat magic < 2147483648" unfolding m by simp
  then have "sint magic = int (unat magic)" by (rule sint_small)
  then have s2: "sint magic = 1597463007" unfolding m by simp
  have "unat (magic - signed_drop_bit 1 w) < 2147483648" unfolding r by linarith
  then have "sint (magic - signed_drop_bit 1 w) = int (unat (magic - signed_drop_bit 1 w))"
    by (rule sint_small)
  then have s3: "sint (magic - signed_drop_bit 1 w) = int (1597463007 - h)"
    unfolding r .
  show ?thesis
    unfolding w_def [symmetric] s1 s2 s3 using hb by linarith
qed

lemma long_subtraction_wraps_minus_zero:
  "sint magic - sint (signed_drop_bit 1 (float_bits (mk_float True 0 0))) = 2671204831"
  "sint (magic - signed_drop_bit 1 (float_bits (mk_float True 0 0))) = - 1623762465"
  by (simp_all add: magic_def float_bits_def mk_float_def)

section \<open>The subtraction that C defines\<close>

text \<open>
  The exact difference \<open>0x5f3759df - (i >> 1)\<close> is a value of a 32-bit \<open>long\<close> exactly
  when the bits of the input, read as a signed integer, are at least \<open>- 1100041280\<close>: for
  every input with a clear sign bit, and for the negative inputs from \<open>0xBE6EB3C0\<close>
  (about \<open>- 0.2331\<close>) on. There the checked run and the wrapping run agree.
\<close>

lemma sint_magic: "sint magic = 1597463007"
  by (simp add: magic_def)

lemma long_sub_magic:
  fixes w :: "32 word"
  shows "long_sub magic (signed_drop_bit 1 w) =
    (if sint w < - 1100041280 then Inl Signed_overflow
     else Inr (magic - signed_drop_bit 1 w))"
proof -
  define h where "h = sint w div 2"
  have s: "sint (signed_drop_bit 1 w) = h"
    by (simp add: sint_signed_drop_bit_eq drop_bit_eq_div h_def)
  have r: "- 2147483648 \<le> sint w" "sint w < 2147483648"
    using sint_ge [of w] sint_lt [of w] by simp_all
  have h2: "2 * h \<le> sint w" "sint w < 2 * h + 2"
    unfolding h_def by linarith+
  have "(- (2 ^ 31) \<le> sint magic - h \<and> sint magic - h < 2 ^ 31)
      = (\<not> sint w < - 1100041280)"
    unfolding sint_magic using r h2 by auto
  then show ?thesis
    unfolding long_sub_def s by simp
qed

lemma finish_checked_Inl: "finish_checked fr (Inl e) = Inl e"
  by (simp add: finish_checked_def)

lemma finish_checked_Inr:
  "finish_checked fr (Inr v) =
     Inr (fr\<lparr>loc_i := v,
            loc_y := fmul (bits_float v)
              (fsub threehalfs (fmul (fmul (loc_x2 fr) (bits_float v)) (bits_float v)))\<rparr>)"
  by (simp add: finish_checked_def Let_def)

lemma inv_sqrt_checked_eq:
  "inv_sqrt_checked n =
     (if sint (float_bits n) < - 1100041280 then Inl Signed_overflow
      else Inr (inv_sqrt n))"
proof (cases "sint (float_bits n) < - 1100041280")
  case True
  then show ?thesis
    by (simp add: inv_sqrt_checked_def inv_sqrt_body_checked_def Let_def long_sub_magic
        finish_checked_Inl del: One_nat_def)
next
  case False
  then show ?thesis
    by (simp add: inv_sqrt_checked_def inv_sqrt_body_checked_def Let_def long_sub_magic
        finish_checked_Inr inv_sqrt_def inv_sqrt_body_y del: One_nat_def)
qed

lemma sint_float_bits_nonneg:
  assumes "\<not> sign n"
  shows "0 \<le> sint (float_bits n)"
proof -
  have "bit (float_bits n) (LENGTH(32) - Suc 0) = (sint (float_bits n) < 0)"
    by (rule bit_last_iff)
  then show ?thesis
    using assms float_bits_sign [of n] by simp
qed

lemma sint_float_bits_minus_zero:
  "float_bits (mk_float True 0 0) = 0x80000000"
  "sint (float_bits (mk_float True 0 0)) = - 2147483648"
  by (simp_all add: float_bits_def mk_float_def)

lemma sint_float_bits_minus_tenth:
  "sint (float_bits (bits_float 0xBDCCCCCD)) = - 1110651699"
  by (simp add: float_bits_inverse)

section \<open>The run with a 64-bit \<open>long\<close>\<close>

text \<open>
  The lower half of \<open>0x5f3759df - (i >> 1)\<close>, computed in 64 bits on the eight bytes
  read, is the 32-bit difference of the magic constant and the bits of \<open>y\<close> shifted right
  with the lowest bit of the word after \<open>y\<close> coming in at the top, where the 32-bit run
  repeats the sign bit.
\<close>

lemma inv_sqrt_lp64_y:
  "inv_sqrt_lp64 a n =
     (let y0 = bits_float (ucast (magic64 - signed_drop_bit 1
                 (push_bit 32 (ucast a) OR ucast (float_bits n) :: 64 word)))
      in fmul y0 (fsub threehalfs (fmul (fmul (fmul n float_half) y0) y0)))"
  by (simp add: inv_sqrt_lp64_def inv_sqrt_body_lp64_def Let_def frame64_0_def
        long_at_y_def float_at_i_def)

lemma inv_sqrt_body_lp64_above: "above_y (inv_sqrt_body_lp64 n fr) = above_y fr"
  by (simp add: inv_sqrt_body_lp64_def Let_def)

lemma word_of_int_mod_long: "(word_of_int (k mod 2 ^ 64) :: 32 word) = word_of_int k"
proof -
  have "take_bit 32 (take_bit 64 k) = take_bit 32 k" for k :: int
    by simp
  then show ?thesis
    by (simp only: word_of_int_eq_iff flip: take_bit_eq_mod) simp
qed

lemma ucast_long_diff:
  fixes a b :: "64 word"
  shows "(ucast (a - b) :: 32 word) = ucast a - ucast b"
proof -
  have e: "uint (a - b) = (uint a - uint b) mod 2 ^ 64"
    by (simp add: uint_word_ariths)
  have "(ucast (a - b) :: 32 word) = word_of_int (uint (a - b))"
    by simp
  also have "\<dots> = word_of_int ((uint a - uint b) mod 2 ^ 64)"
    by (simp only: e)
  also have "\<dots> = (word_of_int (uint a - uint b) :: 32 word)"
    by (rule word_of_int_mod_long)
  also have "\<dots> = ucast a - ucast b"
    by simp
  finally show ?thesis .
qed

lemma ucast_shifted_long:
  fixes a b :: "32 word"
  shows "(ucast (signed_drop_bit 1 (push_bit 32 (ucast a) OR ucast b :: 64 word)) :: 32 word)
    = drop_bit 1 b OR push_bit 31 (a AND 1)"
proof (rule bit_word_eqI)
  fix k assume "k < LENGTH(32)"
  then have k: "k < 32" by simp
  define X :: "64 word" where "X = push_bit 32 (ucast a) OR ucast b"
  have L: "bit (ucast (signed_drop_bit 1 X) :: 32 word) k = bit X (Suc k)"
    using k by (simp add: bit_simps)
  have R1: "bit (drop_bit 1 b) k = bit b (Suc k)"
    by (simp add: bit_simps)
  have R2: "bit (push_bit 31 (a AND 1)) k = (k = 31 \<and> bit a 0)"
    unfolding bit_push_bit_iff bit_and_iff bit_1_iff using k by auto
  have "bit X (Suc k) = ((k = 31 \<and> bit a 0) \<or> bit b (Suc k))"
    unfolding X_def using k by (auto simp add: bit_simps dest: bit_imp_le_length)
  then show "bit (ucast (signed_drop_bit 1 (push_bit 32 (ucast a) OR ucast b :: 64 word))
       :: 32 word) k = bit (drop_bit 1 b OR push_bit 31 (a AND 1)) k"
    unfolding X_def [symmetric] L bit_or_iff R1 R2 by auto
qed

lemma ucast_magic64: "(ucast magic64 :: 32 word) = magic"
  by (simp add: magic64_def magic_def)

lemma lp64_low_word:
  fixes a b :: "32 word"
  shows "(ucast (magic64 - signed_drop_bit 1 (push_bit 32 (ucast a) OR ucast b :: 64 word))
           :: 32 word)
    = magic - (drop_bit 1 b OR push_bit 31 (a AND 1))"
  by (simp only: ucast_long_diff ucast_shifted_long ucast_magic64)

text \<open>
  So the 64-bit run returns what the 32-bit run returns when the sign bit of the input
  is clear and the word after \<open>y\<close> is even. Of the integer read, the lower half is the
  bit pattern of the float and the upper half is the word after \<open>y\<close>.
\<close>

lemma inv_sqrt_lp64_even:
  assumes "\<not> sign n" "\<not> bit a 0"
  shows "inv_sqrt_lp64 a n = inv_sqrt n"
proof -
  have "a AND 1 = 0"
  proof (rule bit_word_eqI)
    fix k assume "k < LENGTH(32)"
    show "bit (a AND 1) k = bit (0 :: 32 word) k"
      using assms(2) by (cases "k = 0") (simp_all add: bit_and_iff bit_1_iff)
  qed
  then have z: "push_bit 31 (a AND 1) = 0" by simp
  have "\<not> bit (float_bits n) 31" using assms(1) by (simp add: float_bits_sign)
  then have sd: "signed_drop_bit 1 (float_bits n) = drop_bit 1 (float_bits n)"
    by (rule signed_drop_bit_nonneg)
  show ?thesis
    unfolding inv_sqrt_lp64_y lp64_low_word z sd [symmetric] inv_sqrt_def inv_sqrt_body_y
    by simp
qed

lemma long_at_y_low_half: "(ucast (long_at_y fr) :: 32 word) = float_bits (loc64_y fr)"
  by (rule bit_word_eqI) (auto simp add: long_at_y_def bit_simps)

lemma long_at_y_high_half: "(ucast (drop_bit 32 (long_at_y fr)) :: 32 word) = above_y fr"
  by (rule bit_word_eqI) (auto simp add: long_at_y_def bit_simps dest: bit_imp_le_length)

lemma float_at_long_at_y: "float_at_i (fr\<lparr>loc64_i := long_at_y fr\<rparr>) = loc64_y fr"
  by (simp add: float_at_i_def long_at_y_low_half bits_float_inverse)

lemma y0_four_odd:
  "bits_float (ucast (magic64 - signed_drop_bit 1
     (push_bit 32 (ucast (1 :: 32 word)) OR ucast (float_bits (mk_float False 129 0))
        :: 64 word)))
   = mk_float True 125 7821791"
  by (simp add: magic64_def bits_float_def float_bits_def mk_float_def)

lemma a_four_odd:
  "fmul (mk_float False 128 0) (mk_float True 125 7821791) = mk_float True 126 7821791"
  by (simp add: fp_eval)

lemma u_four_odd:
  "fmul (mk_float True 126 7821791) (mk_float True 125 7821791) = mk_float False 125 7274124"
  by (simp add: fp_eval)

lemma r_four_odd:
  "fmul (mk_float True 125 7821791) (mk_float False 127 278621) = mk_float True 125 8360207"
  by (simp add: fp_eval)

lemma inv_sqrt_lp64_four_odd:
  "inv_sqrt_lp64 1 (mk_float False 129 0) = mk_float True 125 8360207"
  by (simp only: inv_sqrt_lp64_y Let_def y0_four_odd x2_four a_four_odd u_four_odd c_four
        r_four_odd)

lemma inv_sqrt_lp64_four_even:
  "inv_sqrt_lp64 0 (mk_float False 129 0) = mk_float False 125 8360207"
proof -
  have "\<not> sign (mk_float False 129 0)" "\<not> bit (0 :: 32 word) 0"
    by (simp_all add: mk_float_def)
  then have "inv_sqrt_lp64 0 (mk_float False 129 0) = inv_sqrt (mk_float False 129 0)"
    by (rule inv_sqrt_lp64_even)
  then show ?thesis
    by (simp only: inv_sqrt_four)
qed

lemma y0_nzero_even:
  "bits_float (ucast (magic64 - signed_drop_bit 1
     (push_bit 32 (ucast (0 :: 32 word)) OR ucast (float_bits (mk_float True 0 0))
        :: 64 word)))
   = mk_float False 62 3627487"
  by (simp add: magic64_def bits_float_def float_bits_def mk_float_def)

lemma a_nzero_even:
  "fmul (mk_float True 0 0) (mk_float False 62 3627487) = mk_float True 0 0"
  by (simp add: fp_eval)

lemma r_nzero_even:
  "fmul (mk_float False 62 3627487) (mk_float False 127 4194304) = mk_float False 63 623463"
  by (simp add: fp_eval)

lemma inv_sqrt_lp64_nzero_even:
  "inv_sqrt_lp64 0 (mk_float True 0 0) = mk_float False 63 623463"
  by (simp only: inv_sqrt_lp64_y Let_def y0_nzero_even x2_nzero a_nzero_even c_nzero
        r_nzero_even)

section \<open>The claims\<close>


lemma float_bits_one: "float_bits float_one = 0x3F800000"
  by (simp add: float_bits_def float_one_def mk_float_def)

lemma bits_float_one: "bits_float 0x3F800000 = float_one"
  using bits_float_inverse [of float_one] by (simp only: float_bits_one)

text \<open>
  C2 does not hold of the code where \<open>long\<close> has 64 bits. The integer that
  \<open>*(long *) &y\<close> reads is then no 32-bit integer, and not the bit pattern of the float
  alone: with \<open>y = 1.0\<close>, whose bits are \<open>0x3F800000\<close>, and the word \<open>1\<close> stored after
  \<open>y\<close>, it is \<open>0x13F800000 = 5360320512\<close>, beyond \<open>2 ^ 31 - 1\<close>. Its lower half, which
  \<open>*(float *) &i\<close> would read back, is the float unchanged. The function leaves
  \<open>0xFFFFFFFFBF7759DF\<close> in \<open>i\<close> there, and \<open>0x3F7759DF\<close> where \<open>long\<close> has 32 bits.
\<close>

theorem long_read_takes_eight_bytes:
  "float_bits float_one = 0x3F800000 \<and>
   long_at_y ((frame64_0 1)\<lparr>loc64_y := float_one\<rparr>) = 0x13F800000 \<and>
   sint (long_at_y ((frame64_0 1)\<lparr>loc64_y := float_one\<rparr>)) = 5360320512 \<and>
   float_at_i ((frame64_0 1)\<lparr>loc64_i := 0x13F800000\<rparr>) = float_one \<and>
   loc64_i (inv_sqrt_body_lp64 float_one (frame64_0 1)) = 0xFFFFFFFFBF7759DF \<and>
   loc_i (inv_sqrt_body float_one frame0) = 0x3F7759DF"
proof -
  have r: "long_at_y ((frame64_0 1)\<lparr>loc64_y := float_one\<rparr>) = 0x13F800000"
    by (simp add: long_at_y_def frame64_0_def float_bits_one)
  have s: "sint (0x13F800000 :: 64 word) = 5360320512"
    by simp
  have e: "(5360320512 :: 32 word) = 0x3F800000"
    by simp
  have b: "float_at_i ((frame64_0 1)\<lparr>loc64_i := 0x13F800000\<rparr>) = float_one"
    by (simp add: float_at_i_def e bits_float_one)
  have i: "loc64_i (inv_sqrt_body_lp64 float_one (frame64_0 1)) = 0xFFFFFFFFBF7759DF"
    by (simp add: inv_sqrt_body_lp64_def Let_def long_at_y_def frame64_0_def float_bits_one
        magic64_def)
  have j: "loc_i (inv_sqrt_body float_one frame0) = 0x3F7759DF"
    by (simp add: inv_sqrt_body_def Let_def float_bits_one magic_def)
  show ?thesis
    unfolding r s using float_bits_one b i j by simp
qed


lemma float_bits_four_results:
  "float_bits (mk_float False 129 0) = 0x40800000"
  "float_bits (mk_float False 125 8360207) = 0x3EFF910F"
  "float_bits (mk_float True 125 8360207) = 0xBEFF910F"
  by (simp_all add: float_bits_def mk_float_def)

text \<open>
  C7 does not hold of the code where \<open>long\<close> has 64 bits: the eight bytes read at \<open>y\<close>
  take in the word stored after it, and the result follows the lowest bit of that word.
  On \<open>4.0\<close> the function returns \<open>0x3EFF910F\<close> when the word is \<open>0\<close> and \<open>0xBEFF910F\<close>,
  the negative of it, when the word is \<open>1\<close>. The word itself is left as it was: the
  function writes to its locals only.
\<close>

theorem inv_sqrt_lp64_follows_neighbour:
  "float_bits (mk_float False 129 0) = 0x40800000 \<and>
   float_bits (inv_sqrt_lp64 0 (mk_float False 129 0)) = 0x3EFF910F \<and>
   float_bits (inv_sqrt_lp64 1 (mk_float False 129 0)) = 0xBEFF910F \<and>
   inv_sqrt_lp64 0 (mk_float False 129 0) \<noteq> inv_sqrt_lp64 1 (mk_float False 129 0) \<and>
   above_y (inv_sqrt_body_lp64 (mk_float False 129 0) (frame64_0 1)) = 1"
proof -
  have "mk_float False 125 8360207 \<noteq> mk_float True 125 8360207"
    by (simp add: mk_float_def)
  moreover have "above_y (inv_sqrt_body_lp64 (mk_float False 129 0) (frame64_0 1)) = 1"
    by (simp add: inv_sqrt_body_lp64_above frame64_0_def)
  ultimately show ?thesis
    unfolding inv_sqrt_lp64_four_even inv_sqrt_lp64_four_odd float_bits_four_results
    by simp
qed










lemma fmul_nan_left: "is_nan a \<Longrightarrow> fmul a b = default_nan"
  by (simp add: fmul_def)

lemma fmul_nan_right: "is_nan b \<Longrightarrow> fmul a b = default_nan"
  by (simp add: fmul_def)

lemma is_nan_default: "is_nan default_nan"
  by (simp add: is_nan_def default_nan_def mk_float_def)

lemma fsub_nan_right: "is_nan b \<Longrightarrow> fsub a b = default_nan"
  by (simp add: fsub_def fadd_def fneg_def is_nan_def)

lemma inv_sqrt_nan: "is_nan n \<Longrightarrow> inv_sqrt n = default_nan"
  by (simp add: inv_sqrt_def inv_sqrt_body_y Let_def fmul_nan_left fmul_nan_right
        fsub_nan_right is_nan_default)

lemma nan_bits_in_range:
  assumes "is_nan n"
  shows "\<not> sint (float_bits n) < - 1100041280"
proof (cases "sign n")
  case False
  then show ?thesis using sint_float_bits_nonneg [of n] by simp
next
  case True
  define w where "w = float_bits n"
  have "unat (expo n) = 255"
    using assms by (simp add: is_nan_def)
  then have "4286578688 \<le> unat w"
    unfolding w_def unat_float_bits using True by simp
  then have u: "4286578688 \<le> uint w" by (simp only: uint_nat)
  define q where "q = sint w div 4294967296"
  have m: "uint w = sint w mod 4294967296"
    using uint_sint [of w] by (simp add: take_bit_eq_mod)
  have "sint w = 4294967296 * q + sint w mod 4294967296"
    unfolding q_def by simp
  then have d: "sint w = 4294967296 * q + uint w"
    by (simp only: m)
  have "- 2147483648 \<le> sint w" using sint_ge [of w] by simp
  moreover have "uint w < 4294967296" using uint_bounded [of w] by simp
  ultimately have "- 1 \<le> q" using d by linarith
  then have "- 8388608 \<le> sint w" using u d by linarith
  then show ?thesis unfolding w_def by linarith
qed

lemma special_bits:
  "bits_float 0x00000000 = mk_float False 0 0"
  "bits_float 0x00000001 = mk_float False 0 1"
  "bits_float 0x7F800000 = mk_float False 255 0"
  "bits_float 0x5F898367 = mk_float False 191 623463"
  "bits_float 0xFF800000 = mk_float True 255 0"
  by (simp_all add: bits_float_def mk_float_def)

lemma minus_zero_results:
  "float_bits (mk_float True 63 623463) = 0x9F898367"
  "float_bits (mk_float False 63 623463) = 0x1F898367"
  by (simp_all add: float_bits_def mk_float_def)

text \<open>
  C8 as stated fails on negative inputs. On \<open>-0.0\<close> the exact difference
  \<open>0x5f3759df - (i >> 1)\<close> is \<open>2671204831\<close>, not a value of a 32-bit \<open>long\<close>, so that C
  defines no result, and likewise on \<open>-0.1\<close>. What comes back then is not fixed by the
  code: with wrap-around in 32 bits it is \<open>0x9F898367\<close> on \<open>-0.0\<close>, with a 64-bit \<open>long\<close>
  and an even word after \<open>y\<close> it is \<open>0x1F898367\<close>.
\<close>

theorem inv_sqrt_undefined_on_minus_zero:
  "float_bits (signed_zero True) = 0x80000000 \<and>
   sint magic - sint (signed_drop_bit 1 (float_bits (signed_zero True))) = 2671204831 \<and>
   inv_sqrt_checked (signed_zero True) = Inl Signed_overflow \<and>
   inv_sqrt_checked (bits_float 0xBDCCCCCD) = Inl Signed_overflow \<and>
   float_bits (inv_sqrt (signed_zero True)) = 0x9F898367 \<and>
   float_bits (inv_sqrt_lp64 0 (signed_zero True)) = 0x1F898367"
  unfolding signed_zero_def inv_sqrt_checked_eq sint_float_bits_minus_zero
    sint_float_bits_minus_tenth long_subtraction_wraps_minus_zero inv_sqrt_nzero
    inv_sqrt_lp64_nzero_even minus_zero_results
  by (simp add: sint_magic)

text \<open>
  C8, amended. With a 32-bit \<open>long\<close> the function returns a float fixed by its input,
  and the subtraction stays within the range of \<open>long\<close>, exactly for the inputs whose
  bits read as a signed integer are at least \<open>- 1100041280\<close>; on the others the
  subtraction overflows. Every input with a clear sign bit is among the first, and so is
  every NaN. There the result is meaningless but fixed: a NaN for every NaN,
  \<open>0x5F898367\<close> for \<open>+0.0\<close> and for the smallest subnormal, \<open>-\<infinity>\<close> for \<open>+\<infinity>\<close>.
\<close>

theorem inv_sqrt_defined_without_overflow:
  "inv_sqrt_checked n =
     (if sint (float_bits n) < - 1100041280 then Inl Signed_overflow
      else Inr (inv_sqrt n)) \<and>
   (\<not> sign n \<longrightarrow> inv_sqrt_checked n = Inr (inv_sqrt n)) \<and>
   (is_nan n \<longrightarrow> inv_sqrt_checked n = Inr (inv_sqrt n) \<and> is_nan (inv_sqrt n)) \<and>
   inv_sqrt_checked (bits_float 0x00000000) = Inr (bits_float 0x5F898367) \<and>
   inv_sqrt_checked (bits_float 0x00000001) = Inr (bits_float 0x5F898367) \<and>
   inv_sqrt_checked (bits_float 0x7F800000) = Inr (bits_float 0xFF800000)"
proof -
  have p: "\<not> sign n \<longrightarrow> inv_sqrt_checked n = Inr (inv_sqrt n)"
  proof
    assume "\<not> sign n"
    then have "0 \<le> sint (float_bits n)" by (rule sint_float_bits_nonneg)
    then have "\<not> sint (float_bits n) < - 1100041280" by linarith
    then show "inv_sqrt_checked n = Inr (inv_sqrt n)" by (simp add: inv_sqrt_checked_eq)
  qed
  have q: "is_nan n \<longrightarrow> inv_sqrt_checked n = Inr (inv_sqrt n) \<and> is_nan (inv_sqrt n)"
    using nan_bits_in_range [of n] by (simp add: inv_sqrt_checked_eq inv_sqrt_nan is_nan_default)
  have s: "\<not> sign (mk_float False 0 0)" "\<not> sign (mk_float False 0 1)"
    "\<not> sign (mk_float False 255 0)"
    by (simp_all add: mk_float_def)
  have c: "inv_sqrt_checked (mk_float False 0 0) = Inr (mk_float False 191 623463)"
    "inv_sqrt_checked (mk_float False 0 1) = Inr (mk_float False 191 623463)"
    "inv_sqrt_checked (mk_float False 255 0) = Inr (mk_float True 255 0)"
    using s sint_float_bits_nonneg [of "mk_float False 0 0"]
      sint_float_bits_nonneg [of "mk_float False 0 1"]
      sint_float_bits_nonneg [of "mk_float False 255 0"]
    unfolding inv_sqrt_checked_eq inv_sqrt_pzero inv_sqrt_tiny inv_sqrt_pinf
    by simp_all
  show ?thesis
    unfolding special_bits using p q c inv_sqrt_checked_eq [of n] by simp
qed

theorem inv_sqrt_defined_without_overflow_witness:
  "\<not> sign (bits_float 0x7FC00001) \<and> is_nan (bits_float 0x7FC00001) \<and>
   inv_sqrt_checked (bits_float 0x7FC00001) = Inr (inv_sqrt (bits_float 0x7FC00001)) \<and>
   is_nan (inv_sqrt (bits_float 0x7FC00001))"
proof -
  have h: "is_nan (bits_float 0x7FC00001)" "\<not> sign (bits_float 0x7FC00001)"
    by (simp_all add: is_nan_def bits_float_def)
  with inv_sqrt_defined_without_overflow [of "bits_float 0x7FC00001"] show ?thesis
    by blast
qed










lemma pos_normal_unit: "pos_normal (mk_float False 127 0)"
  by (simp add: pos_normal_def is_normal_def mk_float_def)



lemma four_times_lo: "fmul float_four (mk_float False 1 1) = mk_float False 3 1"
  by (simp add: fp_eval)

lemma half_of_result_lo:
  "fdiv (mk_float False 189 8360207) float_two = mk_float False 188 8360207"
  by (simp add: fp_eval)

lemma shifted_bits_lo:
  "signed_drop_bit 1 (float_bits (mk_float False 3 1))
     = signed_drop_bit 1 (float_bits (mk_float False 1 1)) + 0x800000"
  by (simp add: float_bits_def mk_float_def)

text \<open>
  C9 as stated fails in the lowest binade. For \<open>n = 0x00800001\<close>, normal with \<open>4 * n\<close>
  normal, the shifted bit pattern of \<open>4 * n\<close> is that of \<open>n\<close> plus one unit of the
  exponent field, yet \<open>inv_sqrt (4 * n)\<close> is \<open>0x5E7F910D\<close> and half of \<open>inv_sqrt n\<close> is
  \<open>0x5E7F910F\<close>: the product \<open>n * 0.5F\<close> is subnormal and loses the last bit of \<open>n\<close>.
\<close>

theorem quarter_scaling_fails_lowest_binade:
  "pos_normal (mk_float False 1 1) \<and>
   pos_normal (fmul float_four (mk_float False 1 1)) \<and>
   signed_drop_bit 1 (float_bits (fmul float_four (mk_float False 1 1)))
     = signed_drop_bit 1 (float_bits (mk_float False 1 1)) + 0x800000 \<and>
   inv_sqrt (fmul float_four (mk_float False 1 1))
     \<noteq> fdiv (inv_sqrt (mk_float False 1 1)) float_two"
  unfolding four_times_lo inv_sqrt_lo inv_sqrt_lo4 half_of_result_lo shifted_bits_lo
  by (simp add: pos_normal_def is_normal_def mk_float_def)

text \<open>
  C9, amended. For every positive normal float \<open>n\<close> whose exponent field is between 2
  and 252, that is \<open>2 ^ - 125 \<le> n < 2 ^ 126\<close>, so that \<open>n / 2\<close> and \<open>4 * n\<close> are normal
  too, \<open>inv_sqrt (4 * n)\<close> is exactly \<open>inv_sqrt n / 2\<close>.
\<close>

theorem quarter_scaling_exact:
  assumes "pos_normal n" "2 \<le> unat (expo n)" "unat (expo n) \<le> 252"
  shows "pos_normal (fmul float_four n) \<and>
    inv_sqrt (fmul float_four n) = fdiv (inv_sqrt n) float_two"
proof -
  have E: "1 \<le> unat (expo n)" "unat (expo n) \<le> 254" using assms(2,3) by simp_all
  have P: "(1::nat) \<le> 129" "(129::nat) \<le> 254" by simp_all
  have r: "1 \<le> int (unat (expo n)) + int 129 - 127" "int (unat (expo n)) + int 129 - 127 \<le> 254"
    using assms(2,3) by linarith+
  have "fmul float_four n = fmul n (mk_float False 129 0)"
    unfolding float_four_def by (rule fmul_commute)
  also have "\<dots> = scale_expo n 2"
    using fmul_pow2 [OF E P r] by simp
  finally have f: "fmul float_four n = scale_expo n 2" .
  note q = quarter_scaling [OF assms]
  note b = inv_sqrt_bounds [OF assms(1)]
  have m: "mag (inv_sqrt n) = valof (inv_sqrt n)"
    using abs_valof [of "inv_sqrt n"] b(2) by simp
  have "(2::real) powi (- 100) \<le> 2 powi (- 67)" "(2::real) powi 66 \<le> 2 powi 100"
    by (simp_all only: two_powi_le_iff)
  then have "2 powi (- 100) \<le> mag (inv_sqrt n)" "mag (inv_sqrt n) \<le> 2 powi 100"
    unfolding m using b(6,7) by linarith+
  from expo_of_mag [OF b(1) this]
  have "2 \<le> unat (expo (inv_sqrt n))" "unat (expo (inv_sqrt n)) \<le> 254" by linarith+
  then have "fdiv (inv_sqrt n) float_two = scale_expo (inv_sqrt n) (- 1)"
    by (rule fdiv_two)
  then show ?thesis
    unfolding f using q by simp
qed

lemma expo_unit: "unat (expo (mk_float False 127 0)) = 127"
  by (simp add: mk_float_def)

theorem quarter_scaling_exact_witness:
  "pos_normal (mk_float False 127 0) \<and> 2 \<le> unat (expo (mk_float False 127 0)) \<and>
   unat (expo (mk_float False 127 0)) \<le> 252 \<and>
   pos_normal (fmul float_four (mk_float False 127 0)) \<and>
   inv_sqrt (fmul float_four (mk_float False 127 0))
     = fdiv (inv_sqrt (mk_float False 127 0)) float_two"
proof -
  have e: "2 \<le> unat (expo (mk_float False 127 0))" "unat (expo (mk_float False 127 0)) \<le> 252"
    unfolding expo_unit by simp_all
  from quarter_scaling_exact [OF pos_normal_unit e] show ?thesis
    using pos_normal_unit e by simp
qed

end
